theory Spec2Isabelle
  imports Complex_Main
begin

section \<open>GPS navigation with Dijkstra's algorithm: the data model\<close>

text \<open>
  This theory embeds \<^verbatim>\<open>src/gps_navigation.py\<close> (class \<^verbatim>\<open>GPSNavigator\<close>).

  \<^item> Node identifiers are Python integers: \<open>int\<close>.
  \<^item> Road lengths and distances are Python floats. They are modelled as exact reals, and
    \<^verbatim>\<open>float('infinity')\<close> as a separate constructor, so rounding, NaN and overflow are
    outside the model.
  \<^item> \<^verbatim>\<open>self.graph\<close> is a \<^verbatim>\<open>defaultdict(list)\<close>: an association list in insertion order,
    from a node to its list of (neighbor, distance) pairs. Reading a missing key gives the
    empty list. (The \<^verbatim>\<open>defaultdict\<close> also stores that empty list under the key; no read of
    the methods below can tell a missing key from a key with an empty list, so the model
    keeps the graph unchanged on reads.)
  \<^item> \<^verbatim>\<open>self.node_names\<close> is a dictionary from node to display name: a partial map. A
    lookup of a missing key raises \<^verbatim>\<open>KeyError\<close>.
  \<^item> \<^verbatim>\<open>self.coordinates\<close> is read by the plotting code only and is left out.
\<close>

type_synonym node = int

type_synonym adjacency = "(node \<times> real) list"

type_synonym road_graph = "(node \<times> adjacency) list"

record navigator =
  graph :: road_graph
  node_names :: "node \<rightharpoonup> string"

datatype py_error = KeyError node | TypeError | ZeroDivisionError

datatype fdist = Fin real | Infinity

text \<open>\<^verbatim>\<open>self.graph[u]\<close>: the adjacency list of \<open>u\<close>, empty for a missing key.\<close>

definition neighbors :: "road_graph \<Rightarrow> node \<Rightarrow> adjacency" where
  "neighbors g u = (case map_of g u of None \<Rightarrow> [] | Some adj \<Rightarrow> adj)"

text \<open>\<^verbatim>\<open>self.graph[k].append(e)\<close>: a missing key is created at the end of the dictionary.\<close>

fun graph_append :: "road_graph \<Rightarrow> node \<Rightarrow> node \<times> real \<Rightarrow> road_graph" where
  "graph_append [] k e = [(k, [e])]"
| "graph_append ((k', adj) # g) k e =
     (if k' = k then (k', adj @ [e]) # g else (k', adj) # graph_append g k e)"

definition add_road :: "navigator \<Rightarrow> node \<Rightarrow> node \<Rightarrow> real \<Rightarrow> navigator" where
  "add_road nav from_node to_node distance_km =
     nav\<lparr>graph := graph_append
                     (graph_append (graph nav) from_node (to_node, distance_km))
                     to_node (from_node, distance_km)\<rparr>"

text \<open>\<^verbatim>\<open>setup_city_map\<close>: the twelve intersections and the twenty-two roads of the demo city.\<close>

definition locations :: "string list" where
  "locations =
     [''Main St & 1st Ave'', ''Park Rd & 2nd Ave'', ''Oak St & 3rd Ave'',
      ''Elm St & 1st Ave'', ''Pine St & 2nd Ave'', ''Maple St & 3rd Ave'',
      ''Broadway & 1st Ave'', ''Center St & 2nd Ave'', ''Hill Rd & 3rd Ave'',
      ''River St & 1st Ave'', ''Lake Ave & 2nd Ave'', ''Mountain Rd & 3rd Ave'']"

definition connections :: "(node \<times> node \<times> real) list" where
  "connections =
     [(0, 1, 2.1), (1, 2, 1.9), (0, 3, 1.2), (1, 4, 1.4),
      (2, 5, 1.3), (3, 4, 1.9), (4, 5, 2.1), (3, 6, 1.5),
      (4, 7, 1.7), (5, 8, 1.4), (6, 7, 1.8), (7, 8, 2.0),
      (6, 9, 1.6), (7, 10, 1.9), (8, 11, 1.5), (9, 10, 2.2),
      (10, 11, 1.8), (1, 7, 3.2), (4, 10, 3.5), (0, 6, 4.1),
      (2, 8, 3.8), (5, 11, 3.3)]"

definition add_roads :: "navigator \<Rightarrow> (node \<times> node \<times> real) list \<Rightarrow> navigator" where
  "add_roads nav cs = foldl (\<lambda>n (a, b, w). add_road n a b w) nav cs"

definition setup_city_map :: navigator where
  "setup_city_map =
     add_roads \<lparr>graph = [], node_names = map_of (zip (map int [0..<length locations]) locations)\<rparr>
       connections"

section \<open>The shortest-path engine\<close>

text \<open>
  The trace \<^verbatim>\<open>steps\<close> is a list of formatted strings in the source. The model keeps one
  event per string, holding what the string interpolates; looking a name up for it can
  raise \<^verbatim>\<open>KeyError\<close>, which is what the model keeps of the formatting.
\<close>

datatype step =
    Starting string
  | Destination string
  | Initializing
  | Exploring string real
  | Reached string
  | Updated string real

record search_state =
  distances :: "node \<rightharpoonup> fdist"
  previous :: "node \<rightharpoonup> node"
  visited :: "node set"
  priority_queue :: "(real \<times> node) list"
  steps :: "step list"

record search_result =
  path :: "node list"
  distance :: fdist
  res_visited :: "node set"
  res_steps :: "step list"
  success :: bool

text \<open>\<^verbatim>\<open>new_distance < distances[neighbor]\<close>, the right side a float that may be infinite.\<close>

fun dist_less :: "real \<Rightarrow> fdist \<Rightarrow> bool" where
  "dist_less x (Fin y) = (x < y)"
| "dist_less x Infinity = True"

text \<open>
  \<^verbatim>\<open>heapq\<close> on a list of (distance, node) tuples. Python compares the tuples
  lexicographically, a total order, so \<^verbatim>\<open>heappop\<close> returns the least tuple of the heap and
  leaves the others; the array layout of the binary heap decides nothing else. The model
  keeps the entries in a list, pops the least and pushes at the end.
\<close>

fun item_less :: "real \<times> node \<Rightarrow> real \<times> node \<Rightarrow> bool" where
  "item_less (d1, n1) (d2, n2) = (d1 < d2 \<or> (d1 = d2 \<and> n1 < n2))"

fun heap_min :: "real \<times> node \<Rightarrow> (real \<times> node) list \<Rightarrow> real \<times> node" where
  "heap_min m [] = m"
| "heap_min m (x # xs) = heap_min (if item_less x m then x else m) xs"

definition heappop :: "(real \<times> node) list \<Rightarrow> ((real \<times> node) \<times> (real \<times> node) list) option" where
  "heappop q = (case q of [] \<Rightarrow> None | x # xs \<Rightarrow> Some (heap_min x xs, remove1 (heap_min x xs) q))"

definition heappush :: "(real \<times> node) list \<Rightarrow> real \<times> node \<Rightarrow> (real \<times> node) list" where
  "heappush q x = q @ [x]"

text \<open>The \<^verbatim>\<open>for neighbor, road_distance in self.graph[current_node]\<close> loop (lines 113-125).\<close>

fun explore_neighbors ::
  "(node \<rightharpoonup> string) \<Rightarrow> real \<Rightarrow> node \<Rightarrow> adjacency \<Rightarrow> search_state \<Rightarrow> py_error + search_state" where
  "explore_neighbors nm current_distance current_node [] s = Inr s"
| "explore_neighbors nm current_distance current_node ((neighbor, road_distance) # rest) s =
     (if neighbor \<notin> visited s then
        (case distances s neighbor of
           None \<Rightarrow> Inl (KeyError neighbor)
         | Some old \<Rightarrow>
             if dist_less (current_distance + road_distance) old then
               (case nm neighbor of
                  None \<Rightarrow> Inl (KeyError neighbor)
                | Some name \<Rightarrow>
                    explore_neighbors nm current_distance current_node rest
                      (s\<lparr>distances := (distances s)(neighbor \<mapsto> Fin (current_distance + road_distance)),
                         previous := (previous s)(neighbor \<mapsto> current_node),
                         priority_queue :=
                           heappush (priority_queue s) (current_distance + road_distance, neighbor),
                         steps := steps s @ [Updated name (current_distance + road_distance)]\<rparr>))
             else explore_neighbors nm current_distance current_node rest s)
      else explore_neighbors nm current_distance current_node rest s)"

text \<open>Every node the graph mentions: the keys and the neighbors in the adjacency lists.\<close>

definition graph_nodes :: "road_graph \<Rightarrow> node set" where
  "graph_nodes g = fst ` set g \<union> (\<Union>(u, adj) \<in> set g. fst ` set adj)"

lemma finite_graph_nodes: "finite (graph_nodes g)"
  unfolding graph_nodes_def by (intro finite_UnI finite_imageI finite_UN_I) (auto split: prod.splits)

lemma heap_min_in: "heap_min m xs \<in> set (m # xs)"
  by (induction xs arbitrary: m) auto

lemma heappop_SomeD:
  "heappop q = Some (m, q') \<Longrightarrow> m \<in> set q \<and> q' = remove1 m q"
  using heap_min_in by (auto simp: heappop_def split: list.splits)

lemma heappop_length:
  "heappop q = Some (m, q') \<Longrightarrow> length q' < length q"
  using length_pos_if_in_set[of m q] by (auto dest!: heappop_SomeD simp: length_remove1)

lemma neighbors_nodes: "fst ` set (neighbors g u) \<subseteq> graph_nodes g"
proof
  fix v assume "v \<in> fst ` set (neighbors g u)"
  then obtain adj where "map_of g u = Some adj" "v \<in> fst ` set adj"
    by (cases "map_of g u") (auto simp: neighbors_def)
  then have "(u, adj) \<in> set g" by (auto dest: map_of_SomeD)
  with \<open>v \<in> fst ` set adj\<close> show "v \<in> graph_nodes g"
    unfolding graph_nodes_def by blast
qed

lemma explore_neighbors_frame:
  "explore_neighbors nm cd cn adj s = Inr s' \<Longrightarrow>
     visited s' = visited s \<and>
     snd ` set (priority_queue s') \<subseteq> snd ` set (priority_queue s) \<union> fst ` set adj"
  by (induction nm cd cn adj s rule: explore_neighbors.induct)
     (auto simp: heappush_def split: if_splits option.splits)

text \<open>
  The \<^verbatim>\<open>while priority_queue\<close> loop (lines 91-125). \<^verbatim>\<open>self.node_names[end]\<close> in the
  branch of the destination is the lookup of \<^verbatim>\<open>current_node\<close> made just before it.
\<close>

function dijkstra_loop ::
  "(node \<rightharpoonup> string) \<Rightarrow> road_graph \<Rightarrow> node \<Rightarrow> search_state \<Rightarrow> py_error + search_state" where
  "dijkstra_loop nm g end_node s =
     (case heappop (priority_queue s) of
        None \<Rightarrow> Inr s
      | Some ((current_distance, current_node), q) \<Rightarrow>
          if current_node \<in> visited s then dijkstra_loop nm g end_node (s\<lparr>priority_queue := q\<rparr>)
          else
            (case nm current_node of
               None \<Rightarrow> Inl (KeyError current_node)
             | Some name \<Rightarrow>
                 if current_node = end_node then
                   Inr (s\<lparr>priority_queue := q, visited := insert current_node (visited s),
                          steps := steps s @ [Exploring name current_distance, Reached name]\<rparr>)
                 else
                   (case explore_neighbors nm current_distance current_node (neighbors g current_node)
                           (s\<lparr>priority_queue := q, visited := insert current_node (visited s),
                              steps := steps s @ [Exploring name current_distance]\<rparr>) of
                      Inl e \<Rightarrow> Inl e
                    | Inr s' \<Rightarrow> dijkstra_loop nm g end_node s')))"
  by pat_completeness auto
termination
proof (relation "measures
    [\<lambda>(nm, g, e, s). card ((graph_nodes g \<union> snd ` set (priority_queue s)) - visited s),
     \<lambda>(nm, g, e, s). length (priority_queue s)]", goal_cases)
  case 1
  show ?case by simp
next
  case (2 nm g e s x2 x y cd cn)
  then have pop: "heappop (priority_queue s) = Some ((cd, cn), y)" by simp
  from heappop_SomeD[OF pop] have sub: "set y \<subseteq> set (priority_queue s)"
    using set_remove1_subset by fastforce+
  have fin: "finite ((graph_nodes g \<union> snd ` set (priority_queue s)) - visited s)"
    by (simp add: finite_graph_nodes)
  have "card ((graph_nodes g \<union> snd ` set y) - visited s)
        \<le> card ((graph_nodes g \<union> snd ` set (priority_queue s)) - visited s)"
    using sub by (intro card_mono[OF fin]) auto
  with heappop_length[OF pop] show ?case by auto
next
  case (3 nm g e s x2 x y cd cn name s')
  then have pop: "heappop (priority_queue s) = Some ((cd, cn), y)" by simp
  from heappop_SomeD[OF pop] have sub: "set y \<subseteq> set (priority_queue s)" and cin: "(cd, cn) \<in> set (priority_queue s)"
    using set_remove1_subset by fastforce+
  from 3 have nv: "cn \<notin> visited s" by simp
  from 3 have ex: "explore_neighbors nm cd cn (neighbors g cn)
      (s\<lparr>priority_queue := y, visited := insert cn (visited s), steps := steps s @ [Exploring name cd]\<rparr>) = Inr s'"
    by simp
  from explore_neighbors_frame[OF ex] have v': "visited s' = insert cn (visited s)"
    and q': "snd ` set (priority_queue s') \<subseteq> snd ` set y \<union> fst ` set (neighbors g cn)" by auto
  have fin: "finite ((graph_nodes g \<union> snd ` set (priority_queue s)) - visited s)"
    by (simp add: finite_graph_nodes)
  have "(graph_nodes g \<union> snd ` set (priority_queue s')) - visited s'
        \<subset> (graph_nodes g \<union> snd ` set (priority_queue s)) - visited s"
  proof
    show "(graph_nodes g \<union> snd ` set (priority_queue s')) - visited s'
        \<subseteq> (graph_nodes g \<union> snd ` set (priority_queue s)) - visited s"
    proof -
      have "snd ` set (priority_queue s') \<subseteq> graph_nodes g \<union> snd ` set (priority_queue s)"
        using q' image_mono[OF sub, of snd] neighbors_nodes[of g cn] by blast
      then show ?thesis unfolding v' by blast
    qed
    have "cn \<in> (graph_nodes g \<union> snd ` set (priority_queue s)) - visited s"
      using cin nv by force
    moreover have "cn \<notin> (graph_nodes g \<union> snd ` set (priority_queue s')) - visited s'"
      unfolding v' by simp
    ultimately show "(graph_nodes g \<union> snd ` set (priority_queue s')) - visited s'
        \<noteq> (graph_nodes g \<union> snd ` set (priority_queue s)) - visited s" by blast
  qed
  from psubset_card_mono[OF fin this] show ?case by simp
qed

declare dijkstra_loop.simps [simp del]

text \<open>
  Path reconstruction (lines 128-133): \<^verbatim>\<open>while current is not None\<close> follows \<^verbatim>\<open>previous\<close>
  from the destination. Nothing in the loop bounds it, so it is a partial function: the
  value \<open>None\<close> is a walk that never ends. The accumulator is the list \<^verbatim>\<open>path\<close> before
  \<^verbatim>\<open>path.reverse()\<close>.
\<close>

partial_function (option) walk_back :: "(node \<rightharpoonup> node) \<Rightarrow> node \<Rightarrow> node list \<Rightarrow> node list option" where
  "walk_back prev current acc =
     (case prev current of
        None \<Rightarrow> Some (acc @ [current])
      | Some p \<Rightarrow> walk_back prev p (acc @ [current]))"

declare walk_back.simps [code]

definition init_state :: "road_graph \<Rightarrow> node \<Rightarrow> string \<Rightarrow> string \<Rightarrow> search_state" where
  "init_state g start start_name end_name =
     \<lparr>distances = (\<lambda>v. if v \<in> fst ` set g then Some Infinity else None)(start \<mapsto> Fin 0),
      previous = Map.empty,
      visited = {},
      priority_queue = [(0, start)],
      steps = [Starting start_name, Destination end_name, Initializing]\<rparr>"

text \<open>The validation and the two \<^verbatim>\<open>return\<close> statements (lines 136-151).\<close>

definition make_result :: "node \<Rightarrow> node \<Rightarrow> search_state \<Rightarrow> node list \<Rightarrow> py_error + search_result" where
  "make_result start end_node s rpath =
     (let p = rev rpath in
      if p = [] \<or> hd p \<noteq> start then
        Inr \<lparr>path = [], distance = Infinity, res_visited = visited s, res_steps = steps s,
             success = False\<rparr>
      else
        (case distances s end_node of
           None \<Rightarrow> Inl (KeyError end_node)
         | Some d \<Rightarrow>
             Inr \<lparr>path = p, distance = d, res_visited = visited s, res_steps = steps s,
                  success = True\<rparr>))"

text \<open>
  \<^verbatim>\<open>GPSNavigator.dijkstra\<close> with \<^verbatim>\<open>verbose=False\<close> (printing aside, \<^verbatim>\<open>verbose\<close> changes
  nothing). The outer \<open>option\<close> is termination: \<open>None\<close> when the reconstruction loop
  does not end. \<open>Inl\<close> is a raised exception, \<open>Inr\<close> the returned dictionary.
\<close>

definition dijkstra :: "navigator \<Rightarrow> node \<Rightarrow> node \<Rightarrow> (py_error + search_result) option" where
  "dijkstra nav start end_node =
     (case node_names nav start of
        None \<Rightarrow> Some (Inl (KeyError start))
      | Some start_name \<Rightarrow>
          (case node_names nav end_node of
             None \<Rightarrow> Some (Inl (KeyError end_node))
           | Some end_name \<Rightarrow>
               (case dijkstra_loop (node_names nav) (graph nav) end_node
                       (init_state (graph nav) start start_name end_name) of
                  Inl e \<Rightarrow> Some (Inl e)
                | Inr s \<Rightarrow>
                    map_option (make_result start end_node s)
                      (walk_back (previous s) end_node []))))"

section \<open>Derived utilities\<close>

text \<open>\<^verbatim>\<open>calculate_route_time\<close>: Python's \<^verbatim>\<open>/\<close> raises \<^verbatim>\<open>ZeroDivisionError\<close> on a zero divisor.\<close>

definition calculate_route_time :: "real \<Rightarrow> real \<Rightarrow> py_error + real" where
  "calculate_route_time distance_km avg_speed_kmh =
     (if avg_speed_kmh = 0 then Inl ZeroDivisionError
      else Inr ((distance_km / avg_speed_kmh) * 60))"

definition default_avg_speed_kmh :: real where
  "default_avg_speed_kmh = 30"

text \<open>
  String formatting. \<open>show_nat\<close> is \<^verbatim>\<open>str\<close> on a natural number. \<open>format_1f\<close> is the
  format \<^verbatim>\<open>:.1f\<close>: one digit after the point, the exact value rounded to the nearest
  tenth, ties to the even tenth (what the format does on a float that is exactly a tie).
\<close>

definition digit_char :: "nat \<Rightarrow> char" where
  "digit_char d = ''0123456789'' ! d"

function show_nat :: "nat \<Rightarrow> string" where
  "show_nat n = (if n < 10 then [digit_char n] else show_nat (n div 10) @ [digit_char (n mod 10)])"
  by pat_completeness auto
termination
  by (relation "measure id") auto

definition round_half_even :: "real \<Rightarrow> int" where
  "round_half_even x =
     (let f = \<lfloor>x\<rfloor>; r = x - of_int f in
      if r < 1 / 2 then f else if 1 / 2 < r then f + 1 else if even f then f else f + 1)"

definition format_1f :: "real \<Rightarrow> string" where
  "format_1f x =
     (let t = round_half_even (\<bar>x\<bar> * 10) in
      (if x < 0 then [CHR ''-''] else []) @
      show_nat (nat (t div 10)) @ [CHR ''.''] @ show_nat (nat (t mod 10)))"

text \<open>The inner lookup loop of lines 170-174: the first entry for \<open>next_node\<close>, if any.\<close>

definition find_distance :: "road_graph \<Rightarrow> node \<Rightarrow> node \<Rightarrow> real option" where
  "find_distance g current next_node = map_of (neighbors g current) next_node"

text \<open>
  The body of the \<^verbatim>\<open>for i in range(len(path) - 1)\<close> loop, from index \<open>i\<close> on; \<open>n\<close> is
  \<^verbatim>\<open>len(path)\<close>. \<^verbatim>\<open>total_distance += distance\<close> raises \<^verbatim>\<open>TypeError\<close> when no road was found
  (\<^verbatim>\<open>distance\<close> is \<^verbatim>\<open>None\<close>); the sum itself is never read.
\<close>

fun directions_from ::
  "navigator \<Rightarrow> nat \<Rightarrow> nat \<Rightarrow> node list \<Rightarrow> py_error + string list" where
  "directions_from nav n i (current # next_node # rest) =
     (case find_distance (graph nav) current next_node of
        None \<Rightarrow> Inl TypeError
      | Some d \<Rightarrow>
          (case (if i = 0 then
                   (case node_names nav current of
                      None \<Rightarrow> Inl (KeyError current)
                    | Some name \<Rightarrow> Inr [''1. Start at '' @ name])
                 else Inr []) of
             Inl e \<Rightarrow> Inl e
           | Inr first \<Rightarrow>
               (case node_names nav next_node of
                  None \<Rightarrow> Inl (KeyError next_node)
                | Some name \<Rightarrow>
                    (case directions_from nav n (i + 1) (next_node # rest) of
                       Inl e \<Rightarrow> Inl e
                     | Inr later \<Rightarrow>
                         Inr (first @
                           [show_nat (i + 2) @
                              (if i = n - 2 then ''. Arrive at '' else ''. Continue to '') @
                              name @ '' ('' @ format_1f d @ ''km)''] @ later)))))"
| "directions_from nav n i _ = Inr []"

definition get_turn_by_turn_directions :: "navigator \<Rightarrow> node list \<Rightarrow> py_error + string list" where
  "get_turn_by_turn_directions nav p =
     (if length p < 2 then Inr [] else directions_from nav (length p) 0 p)"

declare show_nat.simps [simp del]

section \<open>What a graph is\<close>

text \<open>
  The existence test of the code is membership in \<^verbatim>\<open>node_names\<close>: the interactive loop
  (line 333) and the examples test \<^verbatim>\<open>start not in self.node_names\<close> before they call
  \<^verbatim>\<open>dijkstra\<close>.
\<close>

definition node_exists :: "navigator \<Rightarrow> node \<Rightarrow> bool" where
  "node_exists nav v = (node_names nav v \<noteq> None)"

text \<open>
  A navigator holds a graph when its two tables agree: every key of the adjacency
  dictionary is a named node, and every neighbor in an adjacency list is a key (no dangling
  reference). \<^verbatim>\<open>setup_city_map\<close> builds such a navigator.
\<close>

definition wf_navigator :: "navigator \<Rightarrow> bool" where
  "wf_navigator nav =
     (\<forall>(u, adj) \<in> set (graph nav).
        node_exists nav u \<and> (\<forall>(v, w) \<in> set adj. v \<in> fst ` set (graph nav)))"

text \<open>The three-node map of the specification's scenarios.\<close>

definition triangle_map :: navigator where
  "triangle_map =
     add_roads \<lparr>graph = [], node_names = [0 \<mapsto> ''node 0'', 1 \<mapsto> ''node 1'', 2 \<mapsto> ''node 2'']\<rparr>
       [(0, 1, 2.1), (1, 2, 1.9), (0, 2, 5.0)]"

text \<open>A list of nodes in which each node is joined to the next by a recorded road.\<close>

fun road_path :: "road_graph \<Rightarrow> node list \<Rightarrow> bool" where
  "road_path g (u # v # rest) = (find_distance g u v \<noteq> None \<and> road_path g (v # rest))"
| "road_path g _ = True"

text \<open>
  The instruction the specification describes for the road from \<open>u\<close> to \<open>v\<close>, the
  \<open>i\<close>-th road (from 0) of a path of \<open>n\<close> nodes: its number, "Arrive" on the last road
  and "Continue" before, the name of \<open>v\<close> and the length of the road.
\<close>

definition spec_instruction :: "navigator \<Rightarrow> nat \<Rightarrow> nat \<Rightarrow> node \<Rightarrow> node \<Rightarrow> string" where
  "spec_instruction nav n i u v =
     show_nat (i + 2) @ (if i + 2 = n then ''. Arrive at '' else ''. Continue to '') @
     the (node_names nav v) @ '' ('' @ format_1f (the (find_distance (graph nav) u v)) @ ''km)''"

section \<open>Routes in the graph\<close>

text \<open>
  A route from \<open>u\<close> is a list of steps, each the entry \<open>(v, w)\<close> of the adjacency list it
  leaves by: the node reached and the length of the road taken. Its nodes are \<open>u\<close> followed
  by the first components, its length the sum of the second ones.
\<close>

fun walk :: "road_graph \<Rightarrow> node \<Rightarrow> (node \<times> real) list \<Rightarrow> bool" where
  "walk g u [] = True"
| "walk g u ((v, w) # es) = ((v, w) \<in> set (neighbors g u) \<and> walk g v es)"

definition walk_end :: "node \<Rightarrow> (node \<times> real) list \<Rightarrow> node" where
  "walk_end u es = last (u # map fst es)"

definition walk_length :: "(node \<times> real) list \<Rightarrow> real" where
  "walk_length es = sum_list (map snd es)"

definition reachable :: "road_graph \<Rightarrow> node \<Rightarrow> node \<Rightarrow> bool" where
  "reachable g u v = (\<exists>es. walk g u es \<and> walk_end u es = v)"

definition nonneg_weights :: "road_graph \<Rightarrow> bool" where
  "nonneg_weights g = (\<forall>(u, adj) \<in> set g. \<forall>(v, w) \<in> set adj. 0 \<le> w)"

text \<open>
  The sum a caller gets from a path by looking each consecutive pair up in the adjacency
  lists, with the lookup of \<^verbatim>\<open>get_turn_by_turn_directions\<close>; \<open>None\<close> when a pair has no
  road.
\<close>

fun path_distance :: "road_graph \<Rightarrow> node list \<Rightarrow> real option" where
  "path_distance g (u # v # rest) =
     (case find_distance g u v of
        None \<Rightarrow> None
      | Some w \<Rightarrow> map_option ((+) w) (path_distance g (v # rest)))"
| "path_distance g _ = Some 0"

text \<open>No adjacency list names a neighbor twice: at most one road joins two nodes.\<close>

definition simple_roads :: "road_graph \<Rightarrow> bool" where
  "simple_roads g = (\<forall>(u, adj) \<in> set g. distinct (map fst adj))"

text \<open>Every road is recorded in both directions with the same length.\<close>

definition symmetric_roads :: "road_graph \<Rightarrow> bool" where
  "symmetric_roads g = (\<forall>u v w. (v, w) \<in> set (neighbors g u) \<longleftrightarrow> (u, w) \<in> set (neighbors g v))"

text \<open>
  Roads whose lengths are whole numbers, and the sum of the lengths of a list of them. A
  sum of whole numbers below \<open>2 ^ 53\<close> is exact in floating point: on such roads the labels
  the code computes at line 115 are the numbers themselves, whatever the order of the
  additions.
\<close>

definition whole_roads :: "(node \<times> node \<times> nat) list \<Rightarrow> (node \<times> node \<times> real) list" where
  "whole_roads roads = map (\<lambda>(a, b, n). (a, b, real n)) roads"

definition total_length :: "(node \<times> node \<times> nat) list \<Rightarrow> nat" where
  "total_length roads = sum_list (map (\<lambda>(a, b, n). n) roads)"

text \<open>
  Four small maps: two roads between the same nodes, a negative road, a node with no
  road, three roads of whole lengths.
\<close>

definition parallel_roads_map :: navigator where
  "parallel_roads_map =
     add_roads \<lparr>graph = [], node_names = [0 \<mapsto> ''node 0'', 1 \<mapsto> ''node 1'']\<rparr>
       [(0, 1, 5), (0, 1, 2)]"

definition shortcut_map :: navigator where
  "shortcut_map =
     add_roads \<lparr>graph = [], node_names = [0 \<mapsto> ''node 0'', 1 \<mapsto> ''node 1'', 2 \<mapsto> ''node 2'']\<rparr>
       [(0, 1, 1), (0, 2, 2), (2, 1, - 5)]"

definition island_map :: navigator where
  "island_map = triangle_map\<lparr>node_names := (node_names triangle_map)(3 \<mapsto> ''node 3'')\<rparr>"

definition whole_number_map :: navigator where
  "whole_number_map =
     add_roads \<lparr>graph = [], node_names = [0 \<mapsto> ''node 0'', 1 \<mapsto> ''node 1'', 2 \<mapsto> ''node 2'']\<rparr>
       (whole_roads [(0, 1, 4), (1, 2, 3), (0, 2, 9)])"

section \<open>The states of the search\<close>

text \<open>The chain of predecessors from a node, as the reconstruction loop follows it.\<close>

inductive pchain :: "(node \<rightharpoonup> node) \<Rightarrow> node \<Rightarrow> node list \<Rightarrow> bool" for P where
  root: "P v = None \<Longrightarrow> pchain P v [v]"
| link: "P v = Some u \<Longrightarrow> pchain P u l \<Longrightarrow> pchain P v (v # l)"

text \<open>One relaxation: the four assignments of lines 118-125.\<close>

definition relaxed :: "search_state \<Rightarrow> node \<Rightarrow> node \<Rightarrow> real \<Rightarrow> string \<Rightarrow> search_state" where
  "relaxed s cn nb nd name =
     s\<lparr>distances := (distances s)(nb \<mapsto> Fin nd),
       previous := (previous s)(nb \<mapsto> cn),
       priority_queue := heappush (priority_queue s) (nd, nb),
       steps := steps s @ [Updated name nd]\<rparr>"

text \<open>The state after a node was popped and marked visited (lines 92-100).\<close>

definition visit :: "search_state \<Rightarrow> (real \<times> node) list \<Rightarrow> node \<Rightarrow> step list \<Rightarrow> search_state" where
  "visit s q cn st = s\<lparr>priority_queue := q, visited := insert cn (visited s), steps := st\<rparr>"

text \<open>
  What holds of the state each time the loop tests its queue. The source has label 0 and
  no predecessor. Every queue entry is for a node that has a label no greater than the
  entry, and that is the source or has a predecessor. A predecessor is a visited node, and
  the label of a node is the label of its predecessor plus the length of a road between
  them. A visited node has a finite label and a chain of predecessors that stays among the
  visited nodes, ends at the source and repeats no node. An unvisited node with a finite
  label is in the queue with that label. Every road out of a visited node, the nodes of
  \<open>X\<close> apart, leads to a visited or a labelled node. \<open>X\<close> holds the nodes that are visited
  before their roads are relaxed: the destination, and the current node during its
  relaxation.
\<close>

definition inv_source :: "node \<Rightarrow> search_state \<Rightarrow> bool" where
  "inv_source src s = (distances s src = Some (Fin 0) \<and> previous s src = None)"

definition inv_queue :: "node \<Rightarrow> search_state \<Rightarrow> bool" where
  "inv_queue src s =
     (\<forall>(d, v) \<in> set (priority_queue s).
        (v = src \<or> previous s v \<noteq> None) \<and> (\<exists>d'. distances s v = Some (Fin d') \<and> d' \<le> d))"

definition inv_prev :: "road_graph \<Rightarrow> search_state \<Rightarrow> bool" where
  "inv_prev g s =
     (\<forall>v u. previous s v = Some u \<longrightarrow>
        u \<in> visited s \<and>
        (\<exists>du w. distances s u = Some (Fin du) \<and> (v, w) \<in> set (neighbors g u) \<and>
                 distances s v = Some (Fin (du + w))))"

definition inv_visited :: "node \<Rightarrow> search_state \<Rightarrow> bool" where
  "inv_visited src s =
     (\<forall>v \<in> visited s.
        (\<exists>d. distances s v = Some (Fin d)) \<and>
        (\<exists>l. pchain (previous s) v l \<and> set l \<subseteq> visited s \<and> last l = src \<and> distinct l))"

definition inv_frontier :: "search_state \<Rightarrow> bool" where
  "inv_frontier s =
     (\<forall>v d. v \<notin> visited s \<longrightarrow> distances s v = Some (Fin d) \<longrightarrow> (d, v) \<in> set (priority_queue s))"

definition inv_closed :: "node set \<Rightarrow> road_graph \<Rightarrow> search_state \<Rightarrow> bool" where
  "inv_closed X g s =
     (\<forall>u \<in> visited s - X. \<forall>(v, w) \<in> set (neighbors g u).
        v \<in> visited s \<or> (\<exists>d. distances s v = Some (Fin d)))"

text \<open>
  With no negative road two more facts hold: the label of a visited node is at most the
  length of every route from the source to it, and the label of an unvisited node is at
  most the label of a visited neighbor plus the road between them.
\<close>

definition inv_opt_dist :: "road_graph \<Rightarrow> node \<Rightarrow> search_state \<Rightarrow> bool" where
  "inv_opt_dist g src s =
     (\<forall>u \<in> visited s. \<forall>d es. distances s u = Some (Fin d) \<longrightarrow> walk g src es \<longrightarrow>
        walk_end src es = u \<longrightarrow> d \<le> walk_length es)"

definition inv_opt_closed :: "node set \<Rightarrow> road_graph \<Rightarrow> search_state \<Rightarrow> bool" where
  "inv_opt_closed X g s =
     (\<forall>u \<in> visited s - X. \<forall>(v, w) \<in> set (neighbors g u). \<forall>du.
        distances s u = Some (Fin du) \<longrightarrow> v \<notin> visited s \<longrightarrow>
        (\<exists>dv. distances s v = Some (Fin dv) \<and> dv \<le> du + w))"

definition search_inv :: "node set \<Rightarrow> road_graph \<Rightarrow> node \<Rightarrow> search_state \<Rightarrow> bool" where
  "search_inv X g src s =
     (inv_source src s \<and> inv_queue src s \<and> inv_prev g s \<and> inv_visited src s \<and>
      inv_frontier s \<and> inv_closed X g s \<and>
      (nonneg_weights g \<longrightarrow> inv_opt_dist g src s \<and> inv_opt_closed X g s))"

text \<open>
  What keeps the lookups of the loop from failing: every queued node has a name, and every
  key of the adjacency dictionary has a label.
\<close>

definition inv_safe :: "(node \<rightharpoonup> string) \<Rightarrow> road_graph \<Rightarrow> search_state \<Rightarrow> bool" where
  "inv_safe nm g s =
     ((\<forall>(d, v) \<in> set (priority_queue s). nm v \<noteq> None) \<and>
      (\<forall>k \<in> fst ` set g. distances s k \<noteq> None))"

section \<open>Building the graph\<close>

lemma map_of_graph_append:
  "map_of (graph_append g k e) c =
     (if c = k then Some ((case map_of g k of None \<Rightarrow> [] | Some adj \<Rightarrow> adj) @ [e]) else map_of g c)"
  by (induction g k e rule: graph_append.induct) auto

lemma neighbors_graph_append:
  "neighbors (graph_append g k e) c = (if c = k then neighbors g k @ [e] else neighbors g c)"
  by (simp add: neighbors_def map_of_graph_append)

text \<open>
  Claim C5, as the code has it: \<^verbatim>\<open>add_road(a, b, w)\<close> checks nothing. For every weight,
  negative or not, it appends \<open>(b, w)\<close> to the adjacency list of \<open>a\<close> and then \<open>(a, w)\<close> to
  the list of \<open>b\<close>, after the entries already there, and changes no other list.
\<close>

theorem add_road_appends:
  "neighbors (graph (add_road nav a b w)) c =
     neighbors (graph nav) c @ (if c = a then [(b, w)] else []) @ (if c = b then [(a, w)] else [])"
  by (simp add: add_road_def neighbors_graph_append)

text \<open>Claim C5 as stated fails: a road of length \<open>-1\<close> is stored.\<close>

theorem add_road_negative_counterexample:
  "(1, - 1) \<in> set (neighbors (graph (add_road \<lparr>graph = [], node_names = Map.empty\<rparr> 0 1 (- 1))) 0)"
  by (simp add: add_road_def neighbors_def)

section \<open>Travel time\<close>

text \<open>
  Claim C7, as the code has it: a zero speed raises \<^verbatim>\<open>ZeroDivisionError\<close>; every other
  speed, negative ones too, returns \<open>distance / speed * 60\<close>, which is negative for a
  negative speed and a positive distance; with the default speed of 30, 60 km take 120
  minutes.
\<close>

theorem calculate_route_time_spec:
  "(v = 0 \<longrightarrow> calculate_route_time d v = Inl ZeroDivisionError) \<and>
   (v \<noteq> 0 \<longrightarrow> calculate_route_time d v = Inr (d / v * 60)) \<and>
   (v < 0 \<and> 0 < d \<longrightarrow> (\<exists>t. calculate_route_time d v = Inr t \<and> t < 0)) \<and>
   calculate_route_time 60 default_avg_speed_kmh = Inr 120"
  by (auto simp: calculate_route_time_def default_avg_speed_kmh_def divide_pos_neg)

theorem calculate_route_time_spec_witness:
  "calculate_route_time 60 30 = Inr 120 \<and> calculate_route_time 60 0 = Inl ZeroDivisionError"
  using calculate_route_time_spec [of 30 60] calculate_route_time_spec [of 0 60] by simp

text \<open>Claim C7 as stated fails: a negative speed gives a negative duration, no error.\<close>

theorem calculate_route_time_negative_counterexample:
  "calculate_route_time 60 (- 30) = Inr (- 120)"
  by (simp add: calculate_route_time_def)

section \<open>Turn-by-turn directions\<close>

lemma directions_from_eq:
  assumes "\<forall>v \<in> set xs. node_exists nav v"
    and "road_path (graph nav) xs"
    and "2 \<le> n"
  shows "directions_from nav n i xs =
     Inr ((if i = 0 \<and> 2 \<le> length xs then [''1. Start at '' @ the (node_names nav (hd xs))] else []) @
          map (\<lambda>j. spec_instruction nav n (i + j) (xs ! j) (xs ! (j + 1))) [0..<length xs - 1])"
  using assms
proof (induction nav n i xs rule: directions_from.induct)
  case (1 nav n i current next_node rest)
  from "1.prems"(2) obtain d where d: "find_distance (graph nav) current next_node = Some d"
    by auto
  from "1.prems"(1) obtain cname nname
    where nm: "node_names nav current = Some cname" "node_names nav next_node = Some nname"
    by (auto simp: node_exists_def)
  have roads: "road_path (graph nav) (next_node # rest)"
    using "1.prems"(2) by simp
  have names: "\<forall>v \<in> set (next_node # rest). node_exists nav v"
    using "1.prems"(1) by simp
  have first: "(if i = 0 then (case node_names nav current of None \<Rightarrow> Inl (KeyError current)
                    | Some name \<Rightarrow> Inr [''1. Start at '' @ name]) else Inr [])
      = Inr (if i = 0 then [''1. Start at '' @ cname] else [])"
    by (simp add: nm)
  have IH: "directions_from nav n (i + 1) (next_node # rest) =
      Inr (map (\<lambda>j. spec_instruction nav n (i + 1 + j) ((next_node # rest) ! j) ((next_node # rest) ! (j + 1)))
             [0..<length rest])"
    using "1.IH"[OF d first nm(2) names roads "1.prems"(3)] by simp
  have shift: "map (\<lambda>j. spec_instruction nav n (i + j) ((current # next_node # rest) ! j)
                 ((current # next_node # rest) ! (j + 1))) [0..<length (current # next_node # rest) - 1]
      = spec_instruction nav n i current next_node #
        map (\<lambda>j. spec_instruction nav n (i + 1 + j) ((next_node # rest) ! j) ((next_node # rest) ! (j + 1)))
             [0..<length rest]"
    by (simp add: upt_conv_Cons map_Suc_upt[symmetric] del: upt_Suc)
  have line: "show_nat (i + 2) @ (if i = n - 2 then ''. Arrive at '' else ''. Continue to '') @
                nname @ '' ('' @ format_1f d @ ''km)'' = spec_instruction nav n i current next_node"
    using "1.prems"(3) by (auto simp: spec_instruction_def nm d)
  show ?case
    unfolding shift
    by (subst directions_from.simps) (simp only: d first nm IH line option.case sum.case, simp add: nm)
qed simp_all

text \<open>
  Claim C6. A path of fewer than two nodes gives no direction. A longer path along
  recorded roads between named nodes gives one line per node: line 1 is "Start at" the
  first node, and the road \<open>j\<close> (from 0) gives line \<open>j + 2\<close>, "Arrive at" for the last road
  and "Continue to" before, with the length of the road to one decimal. On the
  three-node map the path 0, 1, 2 gives the three lines of the scenario.
\<close>

theorem turn_by_turn_directions_spec:
  "(length p < 2 \<longrightarrow> get_turn_by_turn_directions nav p = Inr []) \<and>
   (2 \<le> length p \<and> (\<forall>v \<in> set p. node_exists nav v) \<and> road_path (graph nav) p \<longrightarrow>
      get_turn_by_turn_directions nav p =
        Inr ((''1. Start at '' @ the (node_names nav (hd p))) #
             map (\<lambda>j. spec_instruction nav (length p) j (p ! j) (p ! (j + 1))) [0..<length p - 1])) \<and>
   get_turn_by_turn_directions triangle_map [0, 1, 2] =
     Inr [''1. Start at node 0'', ''2. Continue to node 1 (2.1km)'', ''3. Arrive at node 2 (1.9km)'']"
proof (intro conjI impI)
  show "get_turn_by_turn_directions triangle_map [0, 1, 2] =
     Inr [''1. Start at node 0'', ''2. Continue to node 1 (2.1km)'', ''3. Arrive at node 2 (1.9km)'']"
    by code_simp
next
  assume "length p < 2"
  then show "get_turn_by_turn_directions nav p = Inr []"
    by (simp add: get_turn_by_turn_directions_def)
next
  assume a: "2 \<le> length p \<and> (\<forall>v \<in> set p. node_exists nav v) \<and> road_path (graph nav) p"
  then have "directions_from nav (length p) 0 p =
      Inr ((''1. Start at '' @ the (node_names nav (hd p))) #
           map (\<lambda>j. spec_instruction nav (length p) j (p ! j) (p ! (j + 1))) [0..<length p - 1])"
    using directions_from_eq[of p nav "length p" 0] by simp
  with a show "get_turn_by_turn_directions nav p =
      Inr ((''1. Start at '' @ the (node_names nav (hd p))) #
           map (\<lambda>j. spec_instruction nav (length p) j (p ! j) (p ! (j + 1))) [0..<length p - 1])"
    by (simp add: get_turn_by_turn_directions_def)
qed

theorem turn_by_turn_directions_spec_witness:
  "get_turn_by_turn_directions setup_city_map [0, 3, 4] =
     Inr [''1. Start at Main St & 1st Ave'', ''2. Continue to Elm St & 1st Ave (1.2km)'',
          ''3. Arrive at Pine St & 2nd Ave (1.9km)''] \<and>
   get_turn_by_turn_directions setup_city_map [0] = Inr []"
proof -
  have names: "\<forall>v \<in> set [0, 3, 4]. node_exists setup_city_map v" by code_simp
  have roads: "road_path (graph setup_city_map) [0, 3, 4]" by code_simp
  have lines: "(''1. Start at '' @ the (node_names setup_city_map (hd [0, 3, 4]))) #
      map (\<lambda>j. spec_instruction setup_city_map (length [0, 3, 4 :: node]) j ([0, 3, 4] ! j) ([0, 3, 4] ! (j + 1)))
        [0..<length [0, 3, 4 :: node] - 1] =
      [''1. Start at Main St & 1st Ave'', ''2. Continue to Elm St & 1st Ave (1.2km)'',
       ''3. Arrive at Pine St & 2nd Ave (1.9km)'']"
    by code_simp
  from turn_by_turn_directions_spec[of "[0, 3, 4]" setup_city_map] names roads
  have "get_turn_by_turn_directions setup_city_map [0, 3, 4] =
      Inr ((''1. Start at '' @ the (node_names setup_city_map (hd [0, 3, 4]))) #
      map (\<lambda>j. spec_instruction setup_city_map (length [0, 3, 4 :: node]) j ([0, 3, 4] ! j) ([0, 3, 4] ! (j + 1)))
        [0..<length [0, 3, 4 :: node] - 1])"
    by simp
  moreover from turn_by_turn_directions_spec[of "[0]" setup_city_map]
  have "get_turn_by_turn_directions setup_city_map [0] = Inr []" by simp
  ultimately show ?thesis unfolding lines by simp
qed

section \<open>The engine on trivial queries\<close>

lemma heappop_single [simp]: "heappop [x] = Some (x, [])"
  by (simp add: heappop_def)

text \<open>
  Claim C8. For a node \<open>a\<close> that exists, \<^verbatim>\<open>dijkstra(a, a)\<close> returns success with distance 0
  and the path \<open>[a]\<close>; the whole result is fixed by \<open>a\<close> and its name.
\<close>

theorem dijkstra_same_node:
  assumes "node_names nav a = Some name"
  shows "dijkstra nav a a =
     Some (Inr \<lparr>path = [a], distance = Fin 0, res_visited = {a},
                res_steps = [Starting name, Destination name, Initializing, Exploring name 0, Reached name],
                success = True\<rparr>)"
proof -
  have loop: "dijkstra_loop (node_names nav) (graph nav) a (init_state (graph nav) a name name) =
      Inr \<lparr>distances = (\<lambda>v. if v \<in> fst ` set (graph nav) then Some Infinity else None)(a \<mapsto> Fin 0),
           previous = Map.empty, visited = {a}, priority_queue = [],
           steps = [Starting name, Destination name, Initializing, Exploring name 0, Reached name]\<rparr>"
    using assms by (subst dijkstra_loop.simps) (simp add: init_state_def)
  have walk: "walk_back Map.empty a [] = Some [a]"
    by (subst walk_back.simps) simp
  show ?thesis
    using assms by (simp add: dijkstra_def loop walk make_result_def)
qed

theorem dijkstra_same_node_witness:
  "dijkstra setup_city_map 0 0 =
     Some (Inr \<lparr>path = [0], distance = Fin 0, res_visited = {0},
                res_steps = [Starting ''Main St & 1st Ave'', Destination ''Main St & 1st Ave'',
                             Initializing, Exploring ''Main St & 1st Ave'' 0,
                             Reached ''Main St & 1st Ave''],
                success = True\<rparr>)"
proof -
  have "node_names setup_city_map 0 = Some ''Main St & 1st Ave''" by code_simp
  from dijkstra_same_node[OF this] show ?thesis .
qed

text \<open>
  Claim C4. When the source or the destination does not exist, \<^verbatim>\<open>dijkstra\<close> raises
  \<^verbatim>\<open>KeyError\<close> on the first missing node (the source first) and returns no result.
\<close>

theorem dijkstra_unknown_node:
  assumes "\<not> node_exists nav s \<or> \<not> node_exists nav d"
  shows "dijkstra nav s d = Some (Inl (KeyError (if node_exists nav s then d else s)))"
proof (cases "node_names nav s")
  case None
  then show ?thesis by (simp add: dijkstra_def node_exists_def)
next
  case (Some start_name)
  with assms have "node_names nav d = None" by (simp add: node_exists_def)
  with Some show ?thesis by (simp add: dijkstra_def node_exists_def)
qed

theorem dijkstra_unknown_node_witness:
  "dijkstra setup_city_map 0 99 = Some (Inl (KeyError 99)) \<and>
   dijkstra setup_city_map (- 1) 5 = Some (Inl (KeyError (- 1)))"
proof -
  have a: "\<not> node_exists setup_city_map 99" by code_simp
  have b: "node_exists setup_city_map 0" by code_simp
  have c: "\<not> node_exists setup_city_map (- 1)" by code_simp
  from dijkstra_unknown_node[of setup_city_map 0 99] dijkstra_unknown_node[of setup_city_map "- 1" 5] a b c
  show ?thesis by simp
qed

section \<open>Routes, the queue and the chain of predecessors\<close>

lemma relaxed_simps [simp]:
  "distances (relaxed s cn nb nd name) = (distances s)(nb \<mapsto> Fin nd)"
  "previous (relaxed s cn nb nd name) = (previous s)(nb \<mapsto> cn)"
  "visited (relaxed s cn nb nd name) = visited s"
  "set (priority_queue (relaxed s cn nb nd name)) = insert (nd, nb) (set (priority_queue s))"
  by (simp_all add: relaxed_def heappush_def)

lemma walk_end_Nil [simp]: "walk_end u [] = u"
  by (simp add: walk_end_def)

lemma walk_end_Cons [simp]: "walk_end u ((v, w) # es) = walk_end v es"
  by (simp add: walk_end_def)

lemma walk_append: "walk g u (es @ fs) = (walk g u es \<and> walk g (walk_end u es) fs)"
  by (induction es arbitrary: u) auto

lemma walk_end_append: "walk_end u (es @ fs) = walk_end (walk_end u es) fs"
  by (induction es arbitrary: u) auto

lemma walk_length_simps [simp]:
  "walk_length [] = 0"
  "walk_length ((v, w) # es) = w + walk_length es"
  "walk_length (es @ fs) = walk_length es + walk_length fs"
  by (simp_all add: walk_length_def)

lemma neighbors_in_graph:
  assumes "(v, w) \<in> set (neighbors g u)"
  shows "\<exists>adj. (u, adj) \<in> set g \<and> (v, w) \<in> set adj"
proof (cases "map_of g u")
  case None
  with assms show ?thesis by (simp add: neighbors_def)
next
  case (Some adj)
  with assms have "(v, w) \<in> set adj" by (simp add: neighbors_def)
  with Some show ?thesis by (blast dest: map_of_SomeD)
qed

lemma nonneg_road: "nonneg_weights g \<Longrightarrow> (v, w) \<in> set (neighbors g u) \<Longrightarrow> 0 \<le> w"
  by (fastforce dest: neighbors_in_graph simp: nonneg_weights_def)

lemma walk_nonneg: "nonneg_weights g \<Longrightarrow> walk g u es \<Longrightarrow> 0 \<le> walk_length es"
proof (induction es arbitrary: u)
  case Nil
  then show ?case by simp
next
  case (Cons e es)
  obtain v w where e: "e = (v, w)" by (cases e)
  from Cons.prems have "0 \<le> w" "walk g v es"
    by (auto simp: e dest: nonneg_road)
  with Cons.IH[of v] Cons.prems(1) show ?case by (simp add: e)
qed

lemma item_less_trans_le:
  "\<not> item_less b a \<Longrightarrow> \<not> item_less c b \<Longrightarrow> \<not> item_less c a"
  by (cases a; cases b; cases c) auto

lemma heap_min_least: "x \<in> set (m # xs) \<Longrightarrow> \<not> item_less x (heap_min m xs)"
proof (induction xs arbitrary: m x)
  case Nil
  then show ?case by (cases m) auto
next
  case (Cons y ys)
  define m' where "m' = (if item_less y m then y else m)"
  have hm: "heap_min m (y # ys) = heap_min m' ys" by (simp add: m'_def)
  have top: "\<not> item_less m' (heap_min m' ys)" using Cons.IH[of m' m'] by simp
  show ?case
  proof (cases "x \<in> set (m' # ys)")
    case True
    then show ?thesis unfolding hm by (rule Cons.IH)
  next
    case False
    with Cons.prems have "\<not> item_less x m'"
      by (cases x; cases m; cases y) (auto simp: m'_def split: if_splits)
    from item_less_trans_le[OF top this] show ?thesis unfolding hm .
  qed
qed

lemma heappop_least:
  assumes "heappop q = Some ((d, u), q')" and "(d', v) \<in> set q"
  shows "d \<le> d'"
proof -
  from assms(1) obtain x xs where q: "q = x # xs" and m: "heap_min x xs = (d, u)"
    by (auto simp: heappop_def split: list.splits)
  from heap_min_least[of "(d', v)" x xs] assms(2) have "\<not> item_less (d', v) (d, u)"
    unfolding q m by simp
  then show ?thesis by auto
qed

lemma heappop_None: "heappop q = None \<Longrightarrow> q = []"
  by (simp add: heappop_def split: list.splits)

lemma pchain_hd: "pchain P v l \<Longrightarrow> l \<noteq> [] \<and> hd l = v"
  by (induction rule: pchain.induct) auto

lemma pchain_unique: "pchain P v l \<Longrightarrow> pchain P v l' \<Longrightarrow> l = l'"
proof (induction arbitrary: l' rule: pchain.induct)
  case (root v)
  from root.prems root.hyps show ?case by (cases rule: pchain.cases) auto
next
  case (link v u l)
  from link.prems link.hyps(1) obtain k where "l' = v # k" "pchain P u k"
    by (cases rule: pchain.cases) auto
  with link.IH show ?case by simp
qed

lemma pchain_upd: "pchain P v l \<Longrightarrow> x \<notin> set l \<Longrightarrow> pchain (P(x \<mapsto> y)) v l"
  by (induction rule: pchain.induct) (auto intro: pchain.intros)

lemma pchain_walk_back: "pchain P v l \<Longrightarrow> walk_back P v acc = Some (acc @ l)"
proof (induction arbitrary: acc rule: pchain.induct)
  case (root v)
  then show ?case by (subst walk_back.simps) simp
next
  case (link v u l)
  then show ?case by (subst walk_back.simps) simp
qed

lemma explore_neighbors_Cons:
  "explore_neighbors nm cd cn ((nb, rd) # rest) s =
     (if nb \<notin> visited s then
        (case distances s nb of
           None \<Rightarrow> Inl (KeyError nb)
         | Some old \<Rightarrow>
             if dist_less (cd + rd) old then
               (case nm nb of
                  None \<Rightarrow> Inl (KeyError nb)
                | Some name \<Rightarrow> explore_neighbors nm cd cn rest (relaxed s cn nb (cd + rd) name))
             else explore_neighbors nm cd cn rest s)
      else explore_neighbors nm cd cn rest s)"
  unfolding relaxed_def by simp

lemma explore_neighbors_rule:
  assumes "explore_neighbors nm cd cn adj s = Inr s'"
    and "Q s"
    and "\<And>s nb rd old name. Q s \<Longrightarrow> (nb, rd) \<in> set adj \<Longrightarrow> nb \<notin> visited s \<Longrightarrow>
           distances s nb = Some old \<Longrightarrow> dist_less (cd + rd) old \<Longrightarrow> nm nb = Some name \<Longrightarrow>
           Q (relaxed s cn nb (cd + rd) name)"
  shows "Q s'"
  using assms
proof (induction nm cd cn adj s rule: explore_neighbors.induct)
  case (1 nm cd cn s)
  then show ?case by simp
next
  case (2 nm cd cn nb rd rest s)
  note step = "2.prems"(3)
  have step': "\<And>s nb' rd' old name. Q s \<Longrightarrow> (nb', rd') \<in> set rest \<Longrightarrow> nb' \<notin> visited s \<Longrightarrow>
           distances s nb' = Some old \<Longrightarrow> dist_less (cd + rd') old \<Longrightarrow> nm nb' = Some name \<Longrightarrow>
           Q (relaxed s cn nb' (cd + rd') name)"
    using step by simp
  show ?case
  proof (cases "nb \<notin> visited s")
    case False
    with "2.prems"(1) have "explore_neighbors nm cd cn rest s = Inr s'"
      by (simp add: explore_neighbors_Cons del: explore_neighbors.simps)
    from "2.IH"(3)[OF False this "2.prems"(2) step'] show ?thesis .
  next
    case True
    with "2.prems"(1) obtain old where old: "distances s nb = Some old"
      by (cases "distances s nb") (simp_all add: explore_neighbors_Cons del: explore_neighbors.simps)
    show ?thesis
    proof (cases "dist_less (cd + rd) old")
      case False
      with "2.prems"(1) True old have "explore_neighbors nm cd cn rest s = Inr s'"
        by (simp add: explore_neighbors_Cons del: explore_neighbors.simps)
      from "2.IH"(2)[OF True old False this "2.prems"(2) step'] show ?thesis .
    next
      case less: True
      with "2.prems"(1) True old obtain name where name: "nm nb = Some name"
        by (cases "nm nb") (simp_all add: explore_neighbors_Cons del: explore_neighbors.simps)
      with "2.prems"(1) True old less
      have run: "explore_neighbors nm cd cn rest (relaxed s cn nb (cd + rd) name) = Inr s'"
        by (simp add: explore_neighbors_Cons del: explore_neighbors.simps)
      have "Q (relaxed s cn nb (cd + rd) name)"
        using step[OF "2.prems"(2) _ True old less name] by simp
      from "2.IH"(1)[OF True old less name run[unfolded relaxed_def] this[unfolded relaxed_def]] step'
      show ?thesis by (simp add: relaxed_def)
    qed
  qed
qed

section \<open>The invariant of the search\<close>

lemma dist_less_Fin: "dist_less x d \<Longrightarrow> d = Fin y \<Longrightarrow> x < y"
  by simp

lemma not_dist_less: "\<not> dist_less x d \<Longrightarrow> \<exists>y. d = Fin y \<and> y \<le> x"
  by (cases d) auto

lemma inv_visited_source: "inv_visited src s \<Longrightarrow> v \<in> visited s \<Longrightarrow> src \<in> visited s"
proof -
  assume "inv_visited src s" "v \<in> visited s"
  then obtain l where l: "pchain (previous s) v l" "set l \<subseteq> visited s" "last l = src"
    unfolding inv_visited_def by blast
  from pchain_hd[OF l(1)] have "l \<noteq> []" by simp
  then have "last l \<in> set l" by simp
  with l show ?thesis by auto
qed

subsection \<open>One relaxation keeps the invariant\<close>

lemma relaxed_inv_source:
  assumes "inv_source src s" "nb \<noteq> src"
  shows "inv_source src (relaxed s cn nb nd name)"
  using assms by (simp add: inv_source_def)

lemma relaxed_inv_queue:
  assumes "inv_queue src s" "distances s nb = Some old" "dist_less nd old"
  shows "inv_queue src (relaxed s cn nb nd name)"
  unfolding inv_queue_def
proof (intro ballI, clarify)
  fix d v assume "(d, v) \<in> set (priority_queue (relaxed s cn nb nd name))"
  then have cases: "(d, v) = (nd, nb) \<or> (d, v) \<in> set (priority_queue s)" by simp
  show "(v = src \<or> previous (relaxed s cn nb nd name) v \<noteq> None) \<and>
        (\<exists>d'. distances (relaxed s cn nb nd name) v = Some (Fin d') \<and> d' \<le> d)"
  proof (cases "v = nb")
    case True
    have "nd \<le> d"
    proof (cases "(d, v) = (nd, nb)")
      case True then show ?thesis by simp
    next
      case False
      with cases have "(d, v) \<in> set (priority_queue s)" by blast
      with assms(1) True obtain d' where "distances s nb = Some (Fin d')" "d' \<le> d"
        unfolding inv_queue_def by fastforce
      with assms(2,3) show ?thesis by auto
    qed
    with True show ?thesis by simp
  next
    case False
    with cases have "(d, v) \<in> set (priority_queue s)" by blast
    with assms(1) have "(v = src \<or> previous s v \<noteq> None) \<and> (\<exists>d'. distances s v = Some (Fin d') \<and> d' \<le> d)"
      unfolding inv_queue_def by fastforce
    with False show ?thesis by simp
  qed
qed

lemma relaxed_inv_prev:
  assumes "inv_prev g s" "cn \<in> visited s" "nb \<notin> visited s" "distances s cn = Some (Fin cd)"
    "(nb, rd) \<in> set (neighbors g cn)"
  shows "inv_prev g (relaxed s cn nb (cd + rd) name)"
  unfolding inv_prev_def
proof (intro allI impI)
  fix v u assume pv: "previous (relaxed s cn nb (cd + rd) name) v = Some u"
  have ne: "cn \<noteq> nb" using assms(2,3) by auto
  show "u \<in> visited (relaxed s cn nb (cd + rd) name) \<and>
        (\<exists>du w. distances (relaxed s cn nb (cd + rd) name) u = Some (Fin du) \<and>
                 (v, w) \<in> set (neighbors g u) \<and>
                 distances (relaxed s cn nb (cd + rd) name) v = Some (Fin (du + w)))"
  proof (cases "v = nb")
    case True
    with pv have "u = cn" by simp
    with True assms ne show ?thesis by auto
  next
    case False
    with pv have "previous s v = Some u" by simp
    with assms(1) obtain du w where *: "u \<in> visited s" "distances s u = Some (Fin du)"
      "(v, w) \<in> set (neighbors g u)" "distances s v = Some (Fin (du + w))"
      unfolding inv_prev_def by blast
    from *(1) assms(3) have "u \<noteq> nb" by auto
    with * False show ?thesis by auto
  qed
qed

lemma relaxed_inv_visited:
  assumes "inv_visited src s" "nb \<notin> visited s"
  shows "inv_visited src (relaxed s cn nb nd name)"
  unfolding inv_visited_def
proof (intro ballI conjI)
  fix v assume "v \<in> visited (relaxed s cn nb nd name)"
  then have v: "v \<in> visited s" by simp
  with assms(2) have "v \<noteq> nb" by auto
  with v assms(1) show "\<exists>d. distances (relaxed s cn nb nd name) v = Some (Fin d)"
    unfolding inv_visited_def by simp
  from v assms(1) obtain l where l: "pchain (previous s) v l" "set l \<subseteq> visited s"
    "last l = src" "distinct l"
    unfolding inv_visited_def by blast
  from l(2) assms(2) have "nb \<notin> set l" by auto
  from pchain_upd[OF l(1) this] l
  show "\<exists>l. pchain (previous (relaxed s cn nb nd name)) v l \<and>
            set l \<subseteq> visited (relaxed s cn nb nd name) \<and> last l = src \<and> distinct l"
    by auto
qed

lemma relaxed_inv_frontier:
  assumes "inv_frontier s"
  shows "inv_frontier (relaxed s cn nb nd name)"
  using assms unfolding inv_frontier_def by auto

lemma relaxed_inv_closed:
  assumes "inv_closed X g s"
  shows "inv_closed X g (relaxed s cn nb nd name)"
  unfolding inv_closed_def
proof (intro ballI, clarify)
  fix u v w assume u: "u \<in> visited (relaxed s cn nb nd name)" "u \<notin> X"
    and e: "(v, w) \<in> set (neighbors g u)"
    and n: "\<nexists>d. distances (relaxed s cn nb nd name) v = Some (Fin d)"
  from assms u e have "v \<in> visited s \<or> (\<exists>d. distances s v = Some (Fin d))"
    unfolding inv_closed_def by fastforce
  with n show "v \<in> visited (relaxed s cn nb nd name)"
    by (cases "v = nb") auto
qed

lemma relaxed_inv_opt_dist:
  assumes "inv_opt_dist g src s" "nb \<notin> visited s"
  shows "inv_opt_dist g src (relaxed s cn nb nd name)"
  unfolding inv_opt_dist_def
proof (intro ballI allI impI)
  fix u d es
  assume u: "u \<in> visited (relaxed s cn nb nd name)"
    and d: "distances (relaxed s cn nb nd name) u = Some (Fin d)"
    and w: "walk g src es" "walk_end src es = u"
  from u assms(2) have "u \<noteq> nb" by auto
  with u d w assms(1) show "d \<le> walk_length es"
    unfolding inv_opt_dist_def by auto
qed

lemma relaxed_inv_opt_closed:
  assumes "inv_opt_closed X g s" "nb \<notin> visited s" "distances s nb = Some old" "dist_less nd old"
  shows "inv_opt_closed X g (relaxed s cn nb nd name)"
  unfolding inv_opt_closed_def
proof (intro ballI, clarify)
  fix u v w du
  assume u: "u \<in> visited (relaxed s cn nb nd name)" "u \<notin> X"
    and e: "(v, w) \<in> set (neighbors g u)"
    and du: "distances (relaxed s cn nb nd name) u = Some (Fin du)"
    and v: "v \<notin> visited (relaxed s cn nb nd name)"
  from u assms(2) have "u \<noteq> nb" by auto
  with u e du v assms(1) obtain dv where dv: "distances s v = Some (Fin dv)" "dv \<le> du + w"
    unfolding inv_opt_closed_def by fastforce
  show "\<exists>dv. distances (relaxed s cn nb nd name) v = Some (Fin dv) \<and> dv \<le> du + w"
  proof (cases "v = nb")
    case True
    with dv assms(3,4) have "nd < dv" by auto
    with True dv show ?thesis by simp
  next
    case False
    with dv show ?thesis by simp
  qed
qed

lemma relaxed_search_inv:
  assumes "search_inv X g src s" "cn \<in> visited s" "nb \<notin> visited s"
    "distances s cn = Some (Fin cd)" "(nb, rd) \<in> set (neighbors g cn)"
    "distances s nb = Some old" "dist_less (cd + rd) old"
  shows "search_inv X g src (relaxed s cn nb (cd + rd) name)"
proof -
  from assms(1) have vis: "inv_visited src s" by (simp add: search_inv_def)
  from inv_visited_source[OF vis assms(2)] assms(3) have ne: "nb \<noteq> src" by auto
  show ?thesis
    using assms ne unfolding search_inv_def
    by (auto intro: relaxed_inv_source relaxed_inv_queue relaxed_inv_prev relaxed_inv_visited
        relaxed_inv_frontier relaxed_inv_closed relaxed_inv_opt_dist relaxed_inv_opt_closed)
qed

subsection \<open>The relaxation of all the roads of a node\<close>

lemma explore_neighbors_inv:
  assumes run: "explore_neighbors nm cd cn (neighbors g cn) s = Inr s'"
    and inv: "search_inv X g src s" and cn: "cn \<in> visited s"
    and cd: "distances s cn = Some (Fin cd)"
  shows "search_inv X g src s' \<and> cn \<in> visited s' \<and> distances s' cn = Some (Fin cd)"
proof (rule explore_neighbors_rule[OF run,
      where Q = "\<lambda>t. search_inv X g src t \<and> cn \<in> visited t \<and> distances t cn = Some (Fin cd)"])
  show "search_inv X g src s \<and> cn \<in> visited s \<and> distances s cn = Some (Fin cd)"
    using inv cn cd by simp
next
  fix t nb rd old name
  assume Q: "search_inv X g src t \<and> cn \<in> visited t \<and> distances t cn = Some (Fin cd)"
    and e: "(nb, rd) \<in> set (neighbors g cn)" and nv: "nb \<notin> visited t"
    and old: "distances t nb = Some old" and less: "dist_less (cd + rd) old"
  from Q nv have ne: "cn \<noteq> nb" by auto
  from Q have "search_inv X g src (relaxed t cn nb (cd + rd) name)"
    using relaxed_search_inv[OF _ _ nv _ e old less] by blast
  with Q ne show "search_inv X g src (relaxed t cn nb (cd + rd) name) \<and>
     cn \<in> visited (relaxed t cn nb (cd + rd) name) \<and>
     distances (relaxed t cn nb (cd + rd) name) cn = Some (Fin cd)"
    by simp
qed

lemma explore_neighbors_mono:
  assumes run: "explore_neighbors nm cd cn adj s = Inr s'"
    and d: "distances s v = Some (Fin d)"
  shows "\<exists>d'. distances s' v = Some (Fin d') \<and> d' \<le> d"
proof (rule explore_neighbors_rule[OF run,
      where Q = "\<lambda>t::search_state. \<exists>d'. distances t v = Some (Fin d') \<and> d' \<le> d"])
  show "\<exists>d'. distances s v = Some (Fin d') \<and> d' \<le> d" using d by simp
next
  fix t :: search_state and nb rd old name
  assume Q: "\<exists>d'. distances t v = Some (Fin d') \<and> d' \<le> d"
    and old: "distances t nb = Some old" and less: "dist_less (cd + rd) old"
  show "\<exists>d'. distances (relaxed t cn nb (cd + rd) name) v = Some (Fin d') \<and> d' \<le> d"
  proof (cases "v = nb")
    case True
    with Q old less have "cd + rd \<le> d" by auto
    with True show ?thesis by simp
  next
    case False
    with Q show ?thesis by simp
  qed
qed

lemma explore_neighbors_Cons_Inr:
  assumes "explore_neighbors nm cd cn ((nb, rd) # rest) s = Inr s'"
  shows "\<exists>t. explore_neighbors nm cd cn rest t = Inr s' \<and> visited t = visited s \<and>
             (nb \<notin> visited s \<longrightarrow> (\<exists>d. distances t nb = Some (Fin d) \<and> d \<le> cd + rd))"
proof (cases "nb \<notin> visited s")
  case False
  with assms show ?thesis
    by (auto simp add: explore_neighbors_Cons simp del: explore_neighbors.simps)
next
  case True
  with assms obtain old where old: "distances s nb = Some old"
    by (cases "distances s nb") (simp_all add: explore_neighbors_Cons del: explore_neighbors.simps)
  show ?thesis
  proof (cases "dist_less (cd + rd) old")
    case False
    with assms True old have "explore_neighbors nm cd cn rest s = Inr s'"
      by (simp add: explore_neighbors_Cons del: explore_neighbors.simps)
    moreover from not_dist_less[OF False] old
    have "\<exists>d. distances s nb = Some (Fin d) \<and> d \<le> cd + rd" by auto
    ultimately show ?thesis by blast
  next
    case less: True
    with assms True old obtain name where name: "nm nb = Some name"
      by (cases "nm nb") (simp_all add: explore_neighbors_Cons del: explore_neighbors.simps)
    with assms True old less
    have "explore_neighbors nm cd cn rest (relaxed s cn nb (cd + rd) name) = Inr s'"
      by (simp add: explore_neighbors_Cons del: explore_neighbors.simps)
    moreover have "visited (relaxed s cn nb (cd + rd) name) = visited s" by simp
    moreover have "\<exists>d. distances (relaxed s cn nb (cd + rd) name) nb = Some (Fin d) \<and> d \<le> cd + rd"
      by simp
    ultimately show ?thesis by blast
  qed
qed

lemma explore_neighbors_post:
  "explore_neighbors nm cd cn adj s = Inr s' \<Longrightarrow> (v, w) \<in> set adj \<Longrightarrow> v \<notin> visited s \<Longrightarrow>
     \<exists>d. distances s' v = Some (Fin d) \<and> d \<le> cd + w"
proof (induction adj arbitrary: s)
  case Nil
  then show ?case by simp
next
  case (Cons e rest)
  obtain nb rd where e: "e = (nb, rd)" by (cases e)
  from Cons.prems(1)[unfolded e] explore_neighbors_Cons_Inr
  obtain t where t: "explore_neighbors nm cd cn rest t = Inr s'" "visited t = visited s"
    "nb \<notin> visited s \<longrightarrow> (\<exists>d. distances t nb = Some (Fin d) \<and> d \<le> cd + rd)"
    by blast
  show ?case
  proof (cases "(v, w) = (nb, rd)")
    case True
    with t(3) Cons.prems(3) obtain d where d: "distances t v = Some (Fin d)" "d \<le> cd + w"
      by blast
    from explore_neighbors_mono[OF t(1) d(1)] d(2) show ?thesis by force
  next
    case False
    with Cons.prems(2) e have "(v, w) \<in> set rest" by auto
    from Cons.IH[OF t(1) this] Cons.prems(3) t(2) show ?thesis by simp
  qed
qed

subsection \<open>Visiting the node at the head of the queue\<close>

lemma visit_label:
  assumes "inv_queue src s" "inv_frontier s"
    and pop: "heappop (priority_queue s) = Some ((cd, cn), q)" and nv: "cn \<notin> visited s"
  shows "distances s cn = Some (Fin cd)"
proof -
  from heappop_SomeD[OF pop] have "(cd, cn) \<in> set (priority_queue s)" by simp
  with assms(1) obtain d' where d': "distances s cn = Some (Fin d')" "d' \<le> cd"
    unfolding inv_queue_def by fastforce
  with assms(2) nv have "(d', cn) \<in> set (priority_queue s)"
    unfolding inv_frontier_def by blast
  from heappop_least[OF pop this] d' show ?thesis by simp
qed

lemma frontier_min:
  assumes "inv_frontier s"
    and pop: "heappop (priority_queue s) = Some ((cd, cn), q)"
    and "y \<notin> visited s" "distances s y = Some (Fin dy)"
  shows "cd \<le> dy"
proof -
  from assms have "(dy, y) \<in> set (priority_queue s)"
    unfolding inv_frontier_def by blast
  from heappop_least[OF pop this] show ?thesis .
qed

lemma first_exit:
  assumes nn: "nonneg_weights g" and vis: "inv_visited src s" and od: "inv_opt_dist g src s"
    and oc: "inv_opt_closed X g s" and X: "X \<inter> visited s = {}"
    and least: "\<And>y dy. y \<notin> visited s \<Longrightarrow> distances s y = Some (Fin dy) \<Longrightarrow> m \<le> dy"
  shows "walk g x es \<Longrightarrow> x \<in> visited s \<Longrightarrow> walk g src pre \<Longrightarrow> walk_end src pre = x \<Longrightarrow>
         walk_end x es \<notin> visited s \<Longrightarrow> m \<le> walk_length pre + walk_length es"
proof (induction es arbitrary: x pre)
  case Nil
  then show ?case by simp
next
  case (Cons e es)
  obtain v w where e: "e = (v, w)" by (cases e)
  from Cons.prems(1) e have edge: "(v, w) \<in> set (neighbors g x)" and rest: "walk g v es" by auto
  from vis Cons.prems(2) obtain dx where dx: "distances s x = Some (Fin dx)"
    unfolding inv_visited_def by blast
  from od Cons.prems(2,3,4) dx have le: "dx \<le> walk_length pre"
    unfolding inv_opt_dist_def by blast
  show ?case
  proof (cases "v \<in> visited s")
    case True
    have "walk g src (pre @ [(v, w)])" using Cons.prems(3,4) edge by (simp add: walk_append)
    moreover have "walk_end src (pre @ [(v, w)]) = v" by (simp add: walk_end_append)
    moreover have "walk_end v es \<notin> visited s" using Cons.prems(5) e by simp
    ultimately have "m \<le> walk_length (pre @ [(v, w)]) + walk_length es"
      using Cons.IH[OF rest True] by blast
    with e show ?thesis by simp
  next
    case False
    from X Cons.prems(2) have "x \<in> visited s - X" by auto
    with oc edge dx False obtain dv where dv: "distances s v = Some (Fin dv)" "dv \<le> dx + w"
      unfolding inv_opt_closed_def by fastforce
    from least[OF False dv(1)] have "m \<le> dv" .
    moreover from walk_nonneg[OF nn rest] have "0 \<le> walk_length es" .
    ultimately show ?thesis using dv(2) le e by simp
  qed
qed

lemma source_queued:
  assumes "inv_source src s" "inv_frontier s" "src \<notin> visited s"
  shows "(0, src) \<in> set (priority_queue s)"
  using assms unfolding inv_source_def inv_frontier_def by blast

lemma visit_opt:
  assumes nn: "nonneg_weights g" and inv: "search_inv X g src s" and X: "X \<inter> visited s = {}"
    and pop: "heappop (priority_queue s) = Some ((cd, cn), q)" and nv: "cn \<notin> visited s"
    and w: "walk g src es" "walk_end src es = cn"
  shows "cd \<le> walk_length es"
proof (cases "src \<in> visited s")
  case True
  from inv nn have parts: "inv_visited src s" "inv_opt_dist g src s" "inv_opt_closed X g s"
    "inv_frontier s"
    by (simp_all add: search_inv_def)
  have "cd \<le> walk_length [] + walk_length es"
    using first_exit[OF nn parts(1,2,3) X frontier_min[OF parts(4) pop] w(1) True, where pre = "[]"] w(2) nv
    by simp
  then show ?thesis by simp
next
  case False
  from inv have parts: "inv_source src s" "inv_frontier s" "inv_queue src s"
    by (simp_all add: search_inv_def)
  from source_queued[OF parts(1,2) False] heappop_least[OF pop] have "cd \<le> 0" by blast
  with walk_nonneg[OF nn w(1)] show ?thesis by simp
qed

subsection \<open>Marking the node visited\<close>

lemma visit_simps [simp]:
  "distances (visit s q cn st) = distances s"
  "previous (visit s q cn st) = previous s"
  "visited (visit s q cn st) = insert cn (visited s)"
  "priority_queue (visit s q cn st) = q"
  by (simp_all add: visit_def)

lemma visit_inv_source: "inv_source src s \<Longrightarrow> inv_source src (visit s q cn st)"
  by (simp add: inv_source_def)

lemma visit_inv_queue:
  assumes "inv_queue src s" "set q \<subseteq> set (priority_queue s)"
  shows "inv_queue src (visit s q cn st)"
  unfolding inv_queue_def
proof (intro ballI, clarify)
  fix d v assume "(d, v) \<in> set (priority_queue (visit s q cn st))"
  with assms(2) have "(d, v) \<in> set (priority_queue s)" by auto
  with assms(1) show "(v = src \<or> previous (visit s q cn st) v \<noteq> None) \<and>
        (\<exists>d'. distances (visit s q cn st) v = Some (Fin d') \<and> d' \<le> d)"
    unfolding inv_queue_def by fastforce
qed

lemma visit_inv_prev: "inv_prev g s \<Longrightarrow> inv_prev g (visit s q cn st)"
  unfolding inv_prev_def by auto

lemma visit_inv_visited:
  assumes vis: "inv_visited src s" and prev: "inv_prev g s" and que: "inv_queue src s"
    and inq: "(cd, cn) \<in> set (priority_queue s)" and nv: "cn \<notin> visited s"
  shows "inv_visited src (visit s q cn st)"
  unfolding inv_visited_def
proof (intro ballI)
  fix v assume "v \<in> visited (visit s q cn st)"
  then have v: "v = cn \<or> v \<in> visited s" by simp
  show "(\<exists>d. distances (visit s q cn st) v = Some (Fin d)) \<and>
        (\<exists>l. pchain (previous (visit s q cn st)) v l \<and> set l \<subseteq> visited (visit s q cn st) \<and>
             last l = src \<and> distinct l)"
  proof (cases "v \<in> visited s")
    case True
    with vis have "(\<exists>d. distances s v = Some (Fin d)) \<and>
        (\<exists>l. pchain (previous s) v l \<and> set l \<subseteq> visited s \<and> last l = src \<and> distinct l)"
      unfolding inv_visited_def by blast
    then show ?thesis by auto
  next
    case False
    with v have vc: "v = cn" by simp
    from que inq have q: "cn = src \<or> previous s cn \<noteq> None"
      and lab: "\<exists>d. distances s cn = Some (Fin d)"
      unfolding inv_queue_def by fastforce+
    have "\<exists>l. pchain (previous s) cn l \<and> set l \<subseteq> insert cn (visited s) \<and> last l = src \<and> distinct l"
    proof (cases "previous s cn")
      case None
      with q have "cn = src" by simp
      with None have "pchain (previous s) cn [cn] \<and> set [cn] \<subseteq> insert cn (visited s) \<and>
          last [cn] = src \<and> distinct [cn]"
        by (simp add: pchain.root)
      then show ?thesis by blast
    next
      case (Some u)
      with prev have u: "u \<in> visited s" unfolding inv_prev_def by blast
      with vis obtain l where l: "pchain (previous s) u l" "set l \<subseteq> visited s" "last l = src"
        "distinct l"
        unfolding inv_visited_def by blast
      from pchain_hd[OF l(1)] have ne: "l \<noteq> []" by simp
      from l(2) nv have "cn \<notin> set l" by auto
      with l ne Some have "pchain (previous s) cn (cn # l) \<and> set (cn # l) \<subseteq> insert cn (visited s) \<and>
          last (cn # l) = src \<and> distinct (cn # l)"
        by (auto intro: pchain.link)
      then show ?thesis by blast
    qed
    with lab vc show ?thesis by simp
  qed
qed

lemma visit_inv_frontier:
  assumes "inv_frontier s" "q = remove1 (cd, cn) (priority_queue s)"
  shows "inv_frontier (visit s q cn st)"
  unfolding inv_frontier_def
proof (intro allI impI)
  fix v d assume nv: "v \<notin> visited (visit s q cn st)"
    and d: "distances (visit s q cn st) v = Some (Fin d)"
  from nv have "v \<noteq> cn" "v \<notin> visited s" by auto
  with assms(1) d have "(d, v) \<in> set (priority_queue s)"
    unfolding inv_frontier_def by simp
  with \<open>v \<noteq> cn\<close> assms(2) show "(d, v) \<in> set (priority_queue (visit s q cn st))"
    by simp
qed

lemma visit_inv_closed:
  assumes "inv_closed X g s"
  shows "inv_closed (insert cn X) g (visit s q cn st)"
  unfolding inv_closed_def
proof (intro ballI, clarify)
  fix u v w assume u: "u \<in> visited (visit s q cn st)" "u \<noteq> cn" "u \<notin> X"
    and e: "(v, w) \<in> set (neighbors g u)"
    and n: "\<nexists>d. distances (visit s q cn st) v = Some (Fin d)"
  from u have "u \<in> visited s - X" by simp
  with assms e have "v \<in> visited s \<or> (\<exists>d. distances s v = Some (Fin d))"
    unfolding inv_closed_def by fastforce
  with n show "v \<in> visited (visit s q cn st)" by auto
qed

lemma visit_inv_opt_dist:
  assumes "inv_opt_dist g src s" "distances s cn = Some (Fin cd)"
    and "\<And>es. walk g src es \<Longrightarrow> walk_end src es = cn \<Longrightarrow> cd \<le> walk_length es"
  shows "inv_opt_dist g src (visit s q cn st)"
  unfolding inv_opt_dist_def
proof (intro ballI allI impI)
  fix u d es
  assume u: "u \<in> visited (visit s q cn st)"
    and d: "distances (visit s q cn st) u = Some (Fin d)"
    and w: "walk g src es" "walk_end src es = u"
  show "d \<le> walk_length es"
  proof (cases "u = cn")
    case True
    with d assms(2) have "d = cd" by simp
    with assms(3)[OF w(1)] w(2) True show ?thesis by simp
  next
    case False
    with u have "u \<in> visited s" by simp
    with assms(1) d w show ?thesis unfolding inv_opt_dist_def by auto
  qed
qed

lemma visit_inv_opt_closed:
  assumes "inv_opt_closed X g s"
  shows "inv_opt_closed (insert cn X) g (visit s q cn st)"
  unfolding inv_opt_closed_def
proof (intro ballI, clarify)
  fix u v w du
  assume u: "u \<in> visited (visit s q cn st)" "u \<noteq> cn" "u \<notin> X"
    and e: "(v, w) \<in> set (neighbors g u)"
    and du: "distances (visit s q cn st) u = Some (Fin du)"
    and v: "v \<notin> visited (visit s q cn st)"
  from u have "u \<in> visited s - X" by simp
  moreover from v have "v \<notin> visited s" by simp
  ultimately have "\<exists>dv. distances s v = Some (Fin dv) \<and> dv \<le> du + w"
    using assms e du unfolding inv_opt_closed_def by fastforce
  then show "\<exists>dv. distances (visit s q cn st) v = Some (Fin dv) \<and> dv \<le> du + w" by simp
qed

lemma visit_search_inv:
  assumes inv: "search_inv X g src s" and X: "X \<inter> visited s = {}"
    and pop: "heappop (priority_queue s) = Some ((cd, cn), q)" and nv: "cn \<notin> visited s"
  shows "search_inv (insert cn X) g src (visit s q cn st)"
proof -
  from inv have parts: "inv_source src s" "inv_queue src s" "inv_prev g s" "inv_visited src s"
    "inv_frontier s" "inv_closed X g s"
    by (simp_all add: search_inv_def)
  from heappop_SomeD[OF pop] have inq: "(cd, cn) \<in> set (priority_queue s)"
    and q: "q = remove1 (cd, cn) (priority_queue s)" by simp_all
  from q have sub: "set q \<subseteq> set (priority_queue s)" by (simp add: set_remove1_subset)
  have lab: "distances s cn = Some (Fin cd)" by (rule visit_label[OF parts(2,5) pop nv])
  have opt: "inv_opt_dist g src (visit s q cn st) \<and> inv_opt_closed (insert cn X) g (visit s q cn st)"
    if nn: "nonneg_weights g"
  proof -
    from inv nn have o: "inv_opt_dist g src s" "inv_opt_closed X g s"
      by (simp_all add: search_inv_def)
    from visit_inv_opt_dist[OF o(1) lab visit_opt[OF nn inv X pop nv]] visit_inv_opt_closed[OF o(2)]
    show ?thesis by blast
  qed
  show ?thesis
    unfolding search_inv_def
    using visit_inv_source[OF parts(1)] visit_inv_queue[OF parts(2) sub] visit_inv_prev[OF parts(3)]
      visit_inv_visited[OF parts(4,3,2) inq nv] visit_inv_frontier[OF parts(5) q]
      visit_inv_closed[OF parts(6)] opt
    by blast
qed

subsection \<open>Discarding a stale queue entry\<close>

lemma skip_search_inv:
  assumes inv: "search_inv X g src s"
    and pop: "heappop (priority_queue s) = Some ((cd, cn), q)" and v: "cn \<in> visited s"
  shows "search_inv X g src (s\<lparr>priority_queue := q\<rparr>)"
proof -
  from heappop_SomeD[OF pop] have q: "q = remove1 (cd, cn) (priority_queue s)" by simp
  then have sub: "set q \<subseteq> set (priority_queue s)" by (simp add: set_remove1_subset)
  from inv have parts: "inv_source src s" "inv_queue src s" "inv_prev g s" "inv_visited src s"
    "inv_frontier s" "inv_closed X g s"
    "nonneg_weights g \<longrightarrow> inv_opt_dist g src s \<and> inv_opt_closed X g s"
    by (simp_all add: search_inv_def)
  have 1: "inv_source src (s\<lparr>priority_queue := q\<rparr>)"
    using parts(1) by (simp add: inv_source_def)
  have 2: "inv_queue src (s\<lparr>priority_queue := q\<rparr>)"
    unfolding inv_queue_def
  proof (intro ballI, clarify)
    fix d v assume "(d, v) \<in> set (priority_queue (s\<lparr>priority_queue := q\<rparr>))"
    with sub have "(d, v) \<in> set (priority_queue s)" by auto
    with parts(2) show "(v = src \<or> previous (s\<lparr>priority_queue := q\<rparr>) v \<noteq> None) \<and>
        (\<exists>d'. distances (s\<lparr>priority_queue := q\<rparr>) v = Some (Fin d') \<and> d' \<le> d)"
      unfolding inv_queue_def by fastforce
  qed
  have 3: "inv_prev g (s\<lparr>priority_queue := q\<rparr>)"
    using parts(3) by (simp add: inv_prev_def)
  have 4: "inv_visited src (s\<lparr>priority_queue := q\<rparr>)"
    using parts(4) by (simp add: inv_visited_def)
  have 5: "inv_frontier (s\<lparr>priority_queue := q\<rparr>)"
    unfolding inv_frontier_def
  proof (intro allI impI)
    fix v d assume nv: "v \<notin> visited (s\<lparr>priority_queue := q\<rparr>)"
      and d: "distances (s\<lparr>priority_queue := q\<rparr>) v = Some (Fin d)"
    from nv v have "v \<noteq> cn" by auto
    moreover from parts(5) nv d have "(d, v) \<in> set (priority_queue s)"
      unfolding inv_frontier_def by simp
    ultimately show "(d, v) \<in> set (priority_queue (s\<lparr>priority_queue := q\<rparr>))"
      using q by simp
  qed
  have 6: "inv_closed X g (s\<lparr>priority_queue := q\<rparr>)"
    using parts(6) by (simp add: inv_closed_def)
  have 7: "nonneg_weights g \<longrightarrow> inv_opt_dist g src (s\<lparr>priority_queue := q\<rparr>) \<and>
      inv_opt_closed X g (s\<lparr>priority_queue := q\<rparr>)"
    using parts(7) by (simp add: inv_opt_dist_def inv_opt_closed_def)
  from 1 2 3 4 5 6 7 show ?thesis unfolding search_inv_def by blast
qed

subsection \<open>After the relaxation the node is closed\<close>

lemma close_search_inv:
  assumes inv: "search_inv (insert cn X) g src s" and cn: "cn \<in> visited s"
    and lab: "distances s cn = Some (Fin cd)"
    and post: "\<And>v w. (v, w) \<in> set (neighbors g cn) \<Longrightarrow> v \<notin> visited s \<Longrightarrow>
                 \<exists>d. distances s v = Some (Fin d) \<and> d \<le> cd + w"
  shows "search_inv X g src s"
proof -
  from inv have parts: "inv_source src s" "inv_queue src s" "inv_prev g s" "inv_visited src s"
    "inv_frontier s" "inv_closed (insert cn X) g s"
    "nonneg_weights g \<longrightarrow> inv_opt_dist g src s \<and> inv_opt_closed (insert cn X) g s"
    by (simp_all add: search_inv_def)
  have 6: "inv_closed X g s"
    unfolding inv_closed_def
  proof (intro ballI, clarify)
    fix u v w assume u: "u \<in> visited s" "u \<notin> X" and e: "(v, w) \<in> set (neighbors g u)"
      and n: "\<nexists>d. distances s v = Some (Fin d)"
    show "v \<in> visited s"
    proof (cases "u = cn")
      case True
      with post e n show ?thesis by blast
    next
      case False
      with u have "u \<in> visited s - insert cn X" by simp
      with parts(6) e have "v \<in> visited s \<or> (\<exists>d. distances s v = Some (Fin d))"
        unfolding inv_closed_def by fastforce
      with n show ?thesis by simp
    qed
  qed
  have 7: "inv_opt_closed X g s" if "inv_opt_closed (insert cn X) g s"
    unfolding inv_opt_closed_def
  proof (intro ballI, clarify)
    fix u v w du
    assume u: "u \<in> visited s" "u \<notin> X" and e: "(v, w) \<in> set (neighbors g u)"
      and du: "distances s u = Some (Fin du)" and v: "v \<notin> visited s"
    show "\<exists>dv. distances s v = Some (Fin dv) \<and> dv \<le> du + w"
    proof (cases "u = cn")
      case True
      with post e v du lab show ?thesis by auto
    next
      case False
      with u have "u \<in> visited s - insert cn X" by simp
      with that e du v show ?thesis unfolding inv_opt_closed_def by fastforce
    qed
  qed
  from parts 6 7 show ?thesis unfolding search_inv_def by blast
qed

subsection \<open>The loop keeps the invariant\<close>

lemma dijkstra_loop_inv:
  "dijkstra_loop nm g dst s = Inr s' \<Longrightarrow> search_inv {dst} g src s \<Longrightarrow> dst \<notin> visited s \<Longrightarrow>
     search_inv {dst} g src s' \<and> (dst \<in> visited s' \<or> priority_queue s' = [])"
proof (induction nm g dst s rule: dijkstra_loop.induct)
  case (1 nm g dst s)
  note run = "1.prems"(1) and inv = "1.prems"(2) and nd = "1.prems"(3)
  show ?case
  proof (cases "heappop (priority_queue s)")
    case None
    with run have "s' = s" by (subst (asm) dijkstra_loop.simps) simp
    with heappop_None[OF None] inv show ?thesis by simp
  next
    case (Some a)
    obtain cd cn q where a: "a = ((cd, cn), q)" by (cases a) auto
    note pop = Some[unfolded a]
    show ?thesis
    proof (cases "cn \<in> visited s")
      case True
      with run pop have run': "dijkstra_loop nm g dst (s\<lparr>priority_queue := q\<rparr>) = Inr s'"
        by (subst (asm) dijkstra_loop.simps) simp
      from nd have "dst \<notin> visited (s\<lparr>priority_queue := q\<rparr>)" by simp
      from "1.IH"(1)[OF pop refl refl True run' skip_search_inv[OF inv pop True] this]
      show ?thesis .
    next
      case False
      with run pop obtain name where name: "nm cn = Some name"
        by (subst (asm) dijkstra_loop.simps) (cases "nm cn", simp_all)
      from nd have X: "{dst} \<inter> visited s = {}" by simp
      show ?thesis
      proof (cases "cn = dst")
        case True
        with run pop False name
        have s': "s' = visit s q cn (steps s @ [Exploring name cd, Reached name])"
          by (subst (asm) dijkstra_loop.simps) (simp add: visit_def)
        from visit_search_inv[OF inv X pop False] True
        have "search_inv {dst} g src (visit s q cn (steps s @ [Exploring name cd, Reached name]))"
          by simp
        with s' True show ?thesis by simp
      next
        case ne: False
        let ?s1 = "visit s q cn (steps s @ [Exploring name cd])"
        from run pop False name ne obtain s2 where
          ex: "explore_neighbors nm cd cn (neighbors g cn) ?s1 = Inr s2"
          and run': "dijkstra_loop nm g dst s2 = Inr s'"
          by (subst (asm) dijkstra_loop.simps)
             (cases "explore_neighbors nm cd cn (neighbors g cn) ?s1", simp_all add: visit_def)
        from inv have que: "inv_queue src s" and fro: "inv_frontier s"
          by (simp_all add: search_inv_def)
        have lab: "distances ?s1 cn = Some (Fin cd)"
          using visit_label[OF que fro pop False] by simp
        have inv1: "search_inv (insert cn {dst}) g src ?s1"
          by (rule visit_search_inv[OF inv X pop False])
        from explore_neighbors_inv[OF ex inv1 _ lab]
        have inv2: "search_inv (insert cn {dst}) g src s2" and cn2: "cn \<in> visited s2"
          and lab2: "distances s2 cn = Some (Fin cd)" by simp_all
        from explore_neighbors_frame[OF ex] have vis2: "visited s2 = insert cn (visited s)"
          by simp
        have post: "\<exists>d. distances s2 v = Some (Fin d) \<and> d \<le> cd + w"
          if "(v, w) \<in> set (neighbors g cn)" "v \<notin> visited s2" for v w
          using explore_neighbors_post[OF ex that(1)] that(2) vis2 by simp
        have inv3: "search_inv {dst} g src s2"
          by (rule close_search_inv[OF inv2 cn2 lab2 post])
        from nd ne vis2 have nd2: "dst \<notin> visited s2" by simp
        from ex have ex': "explore_neighbors nm cd cn (neighbors g cn)
            (s\<lparr>priority_queue := q, visited := insert cn (visited s),
               steps := steps s @ [Exploring name cd]\<rparr>) = Inr s2"
          by (simp add: visit_def)
        from "1.IH"(2)[OF pop refl refl False name ne ex' run' inv3 nd2]
        show ?thesis .
      qed
    qed
  qed
qed

lemma init_search_inv: "search_inv X g src (init_state g src a b)"
proof -
  have "inv_source src (init_state g src a b)"
    by (simp add: inv_source_def init_state_def)
  moreover have "inv_queue src (init_state g src a b)"
    by (simp add: inv_queue_def init_state_def)
  moreover have "inv_prev g (init_state g src a b)"
    by (simp add: inv_prev_def init_state_def)
  moreover have "inv_visited src (init_state g src a b)"
    by (simp add: inv_visited_def init_state_def)
  moreover have "inv_frontier (init_state g src a b)"
    by (simp add: inv_frontier_def init_state_def)
  moreover have "inv_closed X g (init_state g src a b)"
    by (simp add: inv_closed_def init_state_def)
  moreover have "inv_opt_dist g src (init_state g src a b)"
    by (simp add: inv_opt_dist_def init_state_def)
  moreover have "inv_opt_closed X g (init_state g src a b)"
    by (simp add: inv_opt_closed_def init_state_def)
  ultimately show ?thesis by (simp add: search_inv_def)
qed

lemma dijkstra_loop_init:
  assumes "dijkstra_loop nm g dst (init_state g src a b) = Inr s'"
  shows "search_inv {dst} g src s' \<and> (dst \<in> visited s' \<or> priority_queue s' = [])"
proof -
  have "dst \<notin> visited (init_state g src a b)" by (simp add: init_state_def)
  from dijkstra_loop_inv[OF assms init_search_inv this] show ?thesis .
qed

subsection \<open>No lookup fails in a well-formed navigator\<close>

lemma wf_neighbor:
  assumes "wf_navigator nav" "(v, w) \<in> set (neighbors (graph nav) u)"
  shows "v \<in> fst ` set (graph nav) \<and> node_names nav v \<noteq> None"
proof -
  from neighbors_in_graph[OF assms(2)] obtain adj where
    adj: "(u, adj) \<in> set (graph nav)" "(v, w) \<in> set adj" by blast
  with assms(1) have key: "v \<in> fst ` set (graph nav)"
    unfolding wf_navigator_def by fastforce
  then obtain adj' where "(v, adj') \<in> set (graph nav)" by auto
  with assms(1) have "node_exists nav v" unfolding wf_navigator_def by fastforce
  with key show ?thesis by (simp add: node_exists_def)
qed

lemma explore_neighbors_total:
  "\<forall>(v, w) \<in> set adj. nm v \<noteq> None \<and> distances s v \<noteq> None \<Longrightarrow>
     \<exists>s'. explore_neighbors nm cd cn adj s = Inr s'"
proof (induction adj arbitrary: s)
  case Nil
  then show ?case by simp
next
  case (Cons e rest)
  obtain nb rd where e: "e = (nb, rd)" by (cases e)
  from Cons.prems e obtain name old where name: "nm nb = Some name"
    and old: "distances s nb = Some old" by auto
  from Cons.prems have rest: "\<forall>(v, w) \<in> set rest. nm v \<noteq> None \<and> distances s v \<noteq> None"
    by simp
  then have rest': "\<forall>(v, w) \<in> set rest. nm v \<noteq> None \<and>
      distances (relaxed s cn nb (cd + rd) name) v \<noteq> None"
    by auto
  from Cons.IH[OF rest] Cons.IH[OF rest'] name old show ?case
    unfolding e by (simp add: explore_neighbors_Cons del: explore_neighbors.simps)
qed

lemma explore_neighbors_safe:
  assumes run: "explore_neighbors nm cd cn adj s = Inr s'" and "inv_safe nm g s"
  shows "inv_safe nm g s'"
proof (rule explore_neighbors_rule[OF run, where Q = "inv_safe nm g"])
  show "inv_safe nm g s" by fact
next
  fix t nb rd old name
  assume "inv_safe nm g t" "nm nb = Some name"
  then show "inv_safe nm g (relaxed t cn nb (cd + rd) name)"
    unfolding inv_safe_def by auto
qed

lemma dijkstra_loop_total:
  "wf_navigator nav \<Longrightarrow> nm = node_names nav \<Longrightarrow> g = graph nav \<Longrightarrow> inv_safe nm g s \<Longrightarrow>
     \<exists>s'. dijkstra_loop nm g dst s = Inr s'"
proof (induction nm g dst s rule: dijkstra_loop.induct)
  case (1 nm g dst s)
  note wf = "1.prems"(1) and nm = "1.prems"(2) and g = "1.prems"(3) and safe = "1.prems"(4)
  show ?case
  proof (cases "heappop (priority_queue s)")
    case None
    then show ?thesis by (subst dijkstra_loop.simps) simp
  next
    case (Some a)
    obtain cd cn q where a: "a = ((cd, cn), q)" by (cases a) auto
    note pop = Some[unfolded a]
    from heappop_SomeD[OF pop] have inq: "(cd, cn) \<in> set (priority_queue s)"
      and q: "q = remove1 (cd, cn) (priority_queue s)" by simp_all
    from q have sub: "set q \<subseteq> set (priority_queue s)" by (simp add: set_remove1_subset)
    show ?thesis
    proof (cases "cn \<in> visited s")
      case True
      from safe sub have "inv_safe nm g (s\<lparr>priority_queue := q\<rparr>)"
        unfolding inv_safe_def by auto
      from "1.IH"(1)[OF pop refl refl True wf nm g this] pop True show ?thesis
        by (subst dijkstra_loop.simps) simp
    next
      case False
      from safe inq obtain name where name: "nm cn = Some name"
        unfolding inv_safe_def by fastforce
      show ?thesis
      proof (cases "cn = dst")
        case True
        with pop False name show ?thesis by (subst dijkstra_loop.simps) simp
      next
        case ne: False
        let ?s1 = "s\<lparr>priority_queue := q, visited := insert cn (visited s),
                      steps := steps s @ [Exploring name cd]\<rparr>"
        from safe sub have safe1: "inv_safe nm g ?s1" unfolding inv_safe_def by auto
        have "\<forall>(v, w) \<in> set (neighbors g cn). nm v \<noteq> None \<and> distances ?s1 v \<noteq> None"
        proof (intro ballI, clarify)
          fix v w assume "(v, w) \<in> set (neighbors g cn)"
          from wf_neighbor[OF wf this[unfolded g]] safe1 nm g
          show "nm v \<noteq> None \<and> distances ?s1 v \<noteq> None"
            unfolding inv_safe_def by auto
        qed
        from explore_neighbors_total[OF this] obtain s2 where
          ex: "explore_neighbors nm cd cn (neighbors g cn) ?s1 = Inr s2" by blast
        from explore_neighbors_safe[OF ex safe1] have "inv_safe nm g s2" .
        from "1.IH"(2)[OF pop refl refl False name ne ex wf nm g this] pop False name ne ex
        show ?thesis by (subst dijkstra_loop.simps) simp
      qed
    qed
  qed
qed

lemma init_safe:
  assumes "nm src \<noteq> None"
  shows "inv_safe nm g (init_state g src a b)"
  using assms unfolding inv_safe_def init_state_def by auto

subsection \<open>From the final state to the result\<close>

lemma pchain_walk:
  assumes prev: "inv_prev g s"
  shows "pchain (previous s) v l \<Longrightarrow> distances s (last l) = Some (Fin 0) \<Longrightarrow>
     \<exists>es. walk g (last l) es \<and> last l # map fst es = rev l \<and>
          distances s v = Some (Fin (walk_length es))"
proof (induction rule: pchain.induct)
  case (root v)
  then have "walk g (last [v]) [] \<and> last [v] # map fst [] = rev [v] \<and>
      distances s v = Some (Fin (walk_length []))" by simp
  then show ?case by blast
next
  case (link v u l)
  from pchain_hd[OF link.hyps(2)] have ne: "l \<noteq> []" and hd: "hd l = u" by simp_all
  from link.prems ne have "distances s (last l) = Some (Fin 0)" by simp
  from link.IH[OF this] obtain es where es: "walk g (last l) es" "last l # map fst es = rev l"
    "distances s u = Some (Fin (walk_length es))" by blast
  from prev link.hyps(1) es(3) obtain w where w: "(v, w) \<in> set (neighbors g u)"
    "distances s v = Some (Fin (walk_length es + w))"
    unfolding inv_prev_def by fastforce
  have "walk_end (last l) es = last (rev l)" unfolding walk_end_def es(2) ..
  with ne hd have end_u: "walk_end (last l) es = u" by (simp add: last_rev)
  have "walk g (last l) (es @ [(v, w)])" using es(1) w(1) end_u by (simp add: walk_append)
  moreover have "last l # map fst (es @ [(v, w)]) = rev (v # l)" using es(2) by simp
  moreover have "distances s v = Some (Fin (walk_length (es @ [(v, w)])))" using w(2) by simp
  ultimately have "walk g (last (v # l)) (es @ [(v, w)]) \<and>
      last (v # l) # map fst (es @ [(v, w)]) = rev (v # l) \<and>
      distances s v = Some (Fin (walk_length (es @ [(v, w)])))"
    using ne by simp
  then show ?case by blast
qed

lemma visited_route:
  assumes inv: "search_inv X g src s" and v: "v \<in> visited s"
  shows "\<exists>es. walk g src es \<and> walk_end src es = v \<and> distinct (src # map fst es) \<and>
            distances s v = Some (Fin (walk_length es)) \<and>
            walk_back (previous s) v [] = Some (rev (src # map fst es))"
proof -
  from inv have parts: "inv_source src s" "inv_prev g s" "inv_visited src s"
    by (simp_all add: search_inv_def)
  from parts(3) v obtain l where l: "pchain (previous s) v l" "last l = src" "distinct l"
    unfolding inv_visited_def by blast
  from parts(1) l(2) have "distances s (last l) = Some (Fin 0)" by (simp add: inv_source_def)
  from pchain_walk[OF parts(2) l(1) this] l(2) obtain es where
    es: "walk g src es" "src # map fst es = rev l" "distances s v = Some (Fin (walk_length es))"
    by auto
  from pchain_hd[OF l(1)] have "l \<noteq> []" "hd l = v" by simp_all
  then have "walk_end src es = v" unfolding walk_end_def es(2) by (simp add: last_rev)
  moreover have "distinct (src # map fst es)" unfolding es(2) using l(3) by simp
  moreover have "walk_back (previous s) v [] = Some (rev (src # map fst es))"
    unfolding es(2) using pchain_walk_back[OF l(1), of "[]"] by simp
  ultimately show ?thesis using es by blast
qed

lemma closed_walk:
  assumes clo: "inv_closed X g s" and fro: "inv_frontier s" and X: "X \<inter> visited s = {}"
    and emp: "priority_queue s = []"
  shows "walk g x es \<Longrightarrow> x \<in> visited s \<Longrightarrow> walk_end x es \<in> visited s"
proof (induction es arbitrary: x)
  case Nil
  then show ?case by simp
next
  case (Cons e es)
  obtain v w where e: "e = (v, w)" by (cases e)
  from Cons.prems(1) e have edge: "(v, w) \<in> set (neighbors g x)" and rest: "walk g v es" by auto
  from X Cons.prems(2) have "x \<in> visited s - X" by auto
  with clo edge have "v \<in> visited s \<or> (\<exists>d. distances s v = Some (Fin d))"
    unfolding inv_closed_def by fastforce
  with fro emp have "v \<in> visited s" unfolding inv_frontier_def by fastforce
  from Cons.IH[OF rest this] e show ?case by simp
qed

lemma unvisited_route:
  assumes inv: "search_inv {dst} g src s" and nv: "dst \<notin> visited s"
    and emp: "priority_queue s = []"
  shows "\<not> reachable g src dst \<and> walk_back (previous s) dst [] = Some [dst] \<and> dst \<noteq> src"
proof -
  from inv have parts: "inv_source src s" "inv_prev g s" "inv_frontier s" "inv_closed {dst} g s"
    by (simp_all add: search_inv_def)
  have src: "src \<in> visited s"
    using source_queued[OF parts(1,3)] emp by auto
  from nv have X: "{dst} \<inter> visited s = {}" by simp
  have "\<not> reachable g src dst"
    unfolding reachable_def using closed_walk[OF parts(4,3) X emp _ src] nv by blast
  moreover have "previous s dst = None"
  proof (cases "previous s dst")
    case (Some u)
    with parts(2) obtain d where "distances s dst = Some (Fin d)"
      unfolding inv_prev_def by blast
    with parts(3) nv emp show ?thesis unfolding inv_frontier_def by fastforce
  qed simp
  then have "walk_back (previous s) dst [] = Some [dst]"
    by (subst walk_back.simps) simp
  ultimately show ?thesis using src nv by auto
qed

lemma dijkstra_outcome:
  assumes a: "node_names nav src = Some a" and b: "node_names nav dst = Some b"
    and run: "dijkstra_loop (node_names nav) (graph nav) dst
                (init_state (graph nav) src a b) = Inr s"
  shows "(\<exists>es. walk (graph nav) src es \<and> walk_end src es = dst \<and> distinct (src # map fst es) \<and>
            (nonneg_weights (graph nav) \<longrightarrow>
               (\<forall>fs. walk (graph nav) src fs \<and> walk_end src fs = dst \<longrightarrow>
                     walk_length es \<le> walk_length fs)) \<and>
            dijkstra nav src dst =
              Some (Inr \<lparr>path = src # map fst es, distance = Fin (walk_length es),
                         res_visited = visited s, res_steps = steps s, success = True\<rparr>))
       \<or> (\<not> reachable (graph nav) src dst \<and>
            dijkstra nav src dst =
              Some (Inr \<lparr>path = [], distance = Infinity,
                         res_visited = visited s, res_steps = steps s, success = False\<rparr>))"
proof -
  from dijkstra_loop_init[OF run] have inv: "search_inv {dst} (graph nav) src s"
    and fin: "dst \<in> visited s \<or> priority_queue s = []" by simp_all
  show ?thesis
  proof (cases "dst \<in> visited s")
    case True
    from visited_route[OF inv True] obtain es where es: "walk (graph nav) src es"
      "walk_end src es = dst" "distinct (src # map fst es)"
      "distances s dst = Some (Fin (walk_length es))"
      "walk_back (previous s) dst [] = Some (rev (src # map fst es))" by blast
    have opt: "walk_length es \<le> walk_length fs"
      if "nonneg_weights (graph nav)" "walk (graph nav) src fs" "walk_end src fs = dst" for fs
    proof -
      from inv that(1) have "inv_opt_dist (graph nav) src s" by (simp add: search_inv_def)
      with True es(4) that(2,3) show ?thesis unfolding inv_opt_dist_def by blast
    qed
    have "dijkstra nav src dst =
        Some (Inr \<lparr>path = src # map fst es, distance = Fin (walk_length es),
                   res_visited = visited s, res_steps = steps s, success = True\<rparr>)"
      using a b run es(4,5) by (simp add: dijkstra_def make_result_def)
    with es(1,2,3) opt show ?thesis by blast
  next
    case False
    with fin have emp: "priority_queue s = []" by simp
    from unvisited_route[OF inv False emp] have un: "\<not> reachable (graph nav) src dst"
      and wb: "walk_back (previous s) dst [] = Some [dst]" and ne: "dst \<noteq> src" by simp_all
    have "dijkstra nav src dst =
        Some (Inr \<lparr>path = [], distance = Infinity,
                   res_visited = visited s, res_steps = steps s, success = False\<rparr>)"
      using a b run wb ne by (simp add: dijkstra_def make_result_def)
    with un show ?thesis by blast
  qed
qed

lemma dijkstra_returns:
  assumes "dijkstra nav src dst = Some (Inr r)"
  shows "\<exists>a b s. node_names nav src = Some a \<and> node_names nav dst = Some b \<and>
           dijkstra_loop (node_names nav) (graph nav) dst (init_state (graph nav) src a b) = Inr s"
  using assms unfolding dijkstra_def
  by (auto split: option.splits sum.splits)

lemma dijkstra_runs:
  assumes wf: "wf_navigator nav" and "node_exists nav src" "node_exists nav dst"
  shows "\<exists>a b s. node_names nav src = Some a \<and> node_names nav dst = Some b \<and>
           dijkstra_loop (node_names nav) (graph nav) dst (init_state (graph nav) src a b) = Inr s"
proof -
  from assms(2,3) obtain a b where ab: "node_names nav src = Some a" "node_names nav dst = Some b"
    by (auto simp: node_exists_def)
  then have "node_names nav src \<noteq> None" by simp
  then have "inv_safe (node_names nav) (graph nav) (init_state (graph nav) src a b)"
    by (rule init_safe)
  from dijkstra_loop_total[OF wf refl refl this] ab show ?thesis by blast
qed

section \<open>Correctness of the search\<close>

lemma walk_path_distance:
  assumes "simple_roads g"
  shows "walk g u es \<Longrightarrow> path_distance g (u # map fst es) = Some (walk_length es)"
proof (induction es arbitrary: u)
  case Nil
  then show ?case by simp
next
  case (Cons e es)
  obtain v w where e: "e = (v, w)" by (cases e)
  from Cons.prems e have edge: "(v, w) \<in> set (neighbors g u)" and rest: "walk g v es" by auto
  from neighbors_in_graph[OF edge] obtain adj where adj: "(u, adj) \<in> set g"
    and "map_of g u = Some adj \<or> True" by blast
  have "distinct (map fst (neighbors g u))"
  proof (cases "map_of g u")
    case None
    then show ?thesis by (simp add: neighbors_def)
  next
    case (Some a)
    then have "(u, a) \<in> set g" by (rule map_of_SomeD)
    with assms Some show ?thesis unfolding simple_roads_def neighbors_def by fastforce
  qed
  with edge have "find_distance g u v = Some w"
    unfolding find_distance_def by simp
  with Cons.IH[OF rest] e show ?case by simp
qed

lemma walk_end_nodes:
  "walk g u es \<Longrightarrow> walk_end u es = u \<or> walk_end u es \<in> graph_nodes g"
proof (induction es arbitrary: u)
  case Nil
  then show ?case by simp
next
  case (Cons e es)
  obtain v w where e: "e = (v, w)" by (cases e)
  from Cons.prems e have edge: "(v, w) \<in> set (neighbors g u)" and rest: "walk g v es" by auto
  from edge neighbors_nodes[of g u] have "v \<in> graph_nodes g" by force
  with Cons.IH[OF rest] e show ?case by auto
qed

lemma set_neighbors_add_road:
  "set (neighbors (graph (add_road nav a b w)) c) =
     set (neighbors (graph nav) c) \<union> (if c = a then {(b, w)} else {}) \<union>
     (if c = b then {(a, w)} else {})"
  by (simp add: add_road_def neighbors_graph_append)

lemma symmetric_add_road:
  assumes "symmetric_roads (graph nav)"
  shows "symmetric_roads (graph (add_road nav a b w))"
  unfolding symmetric_roads_def set_neighbors_add_road
  using assms[unfolded symmetric_roads_def] by auto

lemma symmetric_add_roads:
  "symmetric_roads (graph nav) \<Longrightarrow> symmetric_roads (graph (add_roads nav cs))"
proof (induction cs arbitrary: nav)
  case Nil
  then show ?case by (simp add: add_roads_def)
next
  case (Cons c cs)
  obtain a b w where c: "c = (a, b, w)" by (cases c)
  from Cons.IH[OF symmetric_add_road[OF Cons.prems, of a b w]] show ?case
    by (simp add: add_roads_def c)
qed

lemma symmetric_empty: "symmetric_roads []"
  by (simp add: symmetric_roads_def neighbors_def)

lemma walk_reverse:
  assumes "symmetric_roads g"
  shows "walk g u es \<Longrightarrow>
     \<exists>fs. walk g (walk_end u es) fs \<and> walk_end (walk_end u es) fs = u \<and>
          walk_length fs = walk_length es"
proof (induction es arbitrary: u)
  case Nil
  have "walk g u [] \<and> walk_end u [] = u \<and> walk_length [] = walk_length []" by simp
  then show ?case by (metis walk_end_Nil)
next
  case (Cons e es)
  obtain v w where e: "e = (v, w)" by (cases e)
  from Cons.prems e have edge: "(v, w) \<in> set (neighbors g u)" and rest: "walk g v es" by auto
  from Cons.IH[OF rest] obtain fs where fs: "walk g (walk_end v es) fs"
    "walk_end (walk_end v es) fs = v" "walk_length fs = walk_length es" by blast
  from assms edge have ret: "(u, w) \<in> set (neighbors g v)"
    unfolding symmetric_roads_def by blast
  have "walk g (walk_end v es) (fs @ [(u, w)])" using fs(1,2) ret by (simp add: walk_append)
  moreover have "walk_end (walk_end v es) (fs @ [(u, w)]) = u" by (simp add: walk_end_append)
  moreover have "walk_length (fs @ [(u, w)]) = walk_length ((v, w) # es)" using fs(3) by simp
  ultimately show ?case unfolding e by (metis walk_end_Cons)
qed

text \<open>
  Claim C1. In a well-formed navigator with non-negative road lengths, for a source and a
  destination that exist with the destination reachable, \<^verbatim>\<open>dijkstra\<close> returns a successful
  result whose path is a route from the source to the destination, whose distance is the
  length of that route, and no route from the source to the destination is shorter.
\<close>

theorem dijkstra_shortest_path:
  assumes "wf_navigator nav" and "nonneg_weights (graph nav)"
    and "node_exists nav S" and "node_exists nav D" and "reachable (graph nav) S D"
  shows "\<exists>r es. dijkstra nav S D = Some (Inr r) \<and> success r \<and>
           walk (graph nav) S es \<and> walk_end S es = D \<and>
           path r = S # map fst es \<and> distance r = Fin (walk_length es) \<and>
           (\<forall>fs. walk (graph nav) S fs \<and> walk_end S fs = D \<longrightarrow> walk_length es \<le> walk_length fs)"
proof -
  from dijkstra_runs[OF assms(1,3,4)] obtain a b s where
    run: "node_names nav S = Some a" "node_names nav D = Some b"
      "dijkstra_loop (node_names nav) (graph nav) D (init_state (graph nav) S a b) = Inr s"
    by blast
  from dijkstra_outcome[OF run] assms(2,5) obtain es where
    es: "walk (graph nav) S es" "walk_end S es = D"
      "\<forall>fs. walk (graph nav) S fs \<and> walk_end S fs = D \<longrightarrow> walk_length es \<le> walk_length fs"
      "dijkstra nav S D =
         Some (Inr \<lparr>path = S # map fst es, distance = Fin (walk_length es),
                    res_visited = visited s, res_steps = steps s, success = True\<rparr>)"
    by blast
  let ?r = "\<lparr>path = S # map fst es, distance = Fin (walk_length es),
             res_visited = visited s, res_steps = steps s, success = True\<rparr>"
  from es have "dijkstra nav S D = Some (Inr ?r) \<and> success ?r \<and>
           walk (graph nav) S es \<and> walk_end S es = D \<and>
           path ?r = S # map fst es \<and> distance ?r = Fin (walk_length es) \<and>
           (\<forall>fs. walk (graph nav) S fs \<and> walk_end S fs = D \<longrightarrow> walk_length es \<le> walk_length fs)"
    by simp
  then show ?thesis by blast
qed

lemma triangle_wf: "wf_navigator triangle_map"
  by code_simp

lemma triangle_nonneg: "nonneg_weights (graph triangle_map)"
  by code_simp

lemma triangle_reachable: "reachable (graph triangle_map) 0 2"
proof -
  have "walk (graph triangle_map) 0 [(2, 5)]" by code_simp
  moreover have "walk_end 0 [(2, 5 :: real)] = 2" by simp
  ultimately show ?thesis unfolding reachable_def by blast
qed

theorem dijkstra_shortest_path_witness:
  "\<exists>r es. dijkstra triangle_map 0 2 = Some (Inr r) \<and> success r \<and>
           walk (graph triangle_map) 0 es \<and> walk_end 0 es = 2 \<and>
           path r = 0 # map fst es \<and> distance r = Fin (walk_length es) \<and>
           (\<forall>fs. walk (graph triangle_map) 0 fs \<and> walk_end 0 fs = 2 \<longrightarrow>
                 walk_length es \<le> walk_length fs)"
proof -
  have "node_exists triangle_map 0" "node_exists triangle_map 2" by code_simp+
  from dijkstra_shortest_path[OF triangle_wf triangle_nonneg this triangle_reachable]
  show ?thesis .
qed

text \<open>
  Claim C2, amended. The distance of a successful result is the sum of the lengths of the
  roads the search took along the returned path. It is the sum the adjacency lookup of
  \<^verbatim>\<open>get_turn_by_turn_directions\<close> finds when no adjacency list names a neighbor twice.
\<close>

theorem path_distance_spec:
  assumes "dijkstra nav S D = Some (Inr r)" and "success r"
  shows "\<exists>es. walk (graph nav) S es \<and> path r = S # map fst es \<and>
           distance r = Fin (walk_length es) \<and>
           (simple_roads (graph nav) \<longrightarrow>
              path_distance (graph nav) (path r) = Some (walk_length es))"
proof -
  from dijkstra_returns[OF assms(1)] obtain a b s where
    run: "node_names nav S = Some a" "node_names nav D = Some b"
      "dijkstra_loop (node_names nav) (graph nav) D (init_state (graph nav) S a b) = Inr s"
    by blast
  from dijkstra_outcome[OF run] assms obtain es where
    es: "walk (graph nav) S es"
      "r = \<lparr>path = S # map fst es, distance = Fin (walk_length es),
            res_visited = visited s, res_steps = steps s, success = True\<rparr>"
    by auto
  have "simple_roads (graph nav) \<longrightarrow>
      path_distance (graph nav) (S # map fst es) = Some (walk_length es)"
    using walk_path_distance[OF _ es(1)] by blast
  with es show ?thesis by auto
qed

theorem path_distance_spec_witness:
  "\<exists>r. dijkstra triangle_map 0 2 = Some (Inr r) \<and> success r \<and>
        simple_roads (graph triangle_map) \<and> path r = [0, 1, 2] \<and> distance r = Fin 4 \<and>
        path_distance (graph triangle_map) (path r) = Some 4"
proof -
  let ?r = "\<lparr>path = [0, 1, 2], distance = Fin 4, res_visited = {2, 1, 0},
             res_steps = [Starting ''node 0'', Destination ''node 2'', Initializing,
               Exploring ''node 0'' 0, Updated ''node 1'' (21 / 10), Updated ''node 2'' 5,
               Exploring ''node 1'' (21 / 10), Updated ''node 2'' 4,
               Exploring ''node 2'' 4, Reached ''node 2''],
             success = True\<rparr>"
  have run: "dijkstra triangle_map 0 2 = Some (Inr ?r)"
    by code_simp
  have simple: "simple_roads (graph triangle_map)"
    by code_simp
  have "success ?r" by simp
  from path_distance_spec[OF run this] obtain es where
    es: "distance ?r = Fin (walk_length es)"
      "simple_roads (graph triangle_map) \<longrightarrow>
         path_distance (graph triangle_map) (path ?r) = Some (walk_length es)"
    by blast
  from es(1) have "walk_length es = 4" by simp
  with es(2) simple have "path_distance (graph triangle_map) (path ?r) = Some 4" by simp
  with run simple have "dijkstra triangle_map 0 2 = Some (Inr ?r) \<and> success ?r \<and>
        simple_roads (graph triangle_map) \<and> path ?r = [0, 1, 2] \<and> distance ?r = Fin 4 \<and>
        path_distance (graph triangle_map) (path ?r) = Some 4"
    by simp
  then show ?thesis by blast
qed

text \<open>
  Claim C2 as stated fails when two roads join the same pair of nodes: the search takes
  the shorter one, the lookup finds the one recorded first.
\<close>

theorem path_distance_parallel_counterexample:
  "map_option (map_sum id (\<lambda>r. (success r, path r, distance r))) (dijkstra parallel_roads_map 0 1)
     = Some (Inr (True, [0, 1], Fin 2)) \<and>
   path_distance (graph parallel_roads_map) [0, 1] = Some 5"
  by code_simp

text \<open>
  Claim C3. In a well-formed navigator, for a source and a destination that exist,
  \<^verbatim>\<open>dijkstra\<close> raises nothing and returns a result; the result is a success exactly when
  the destination is reachable, and otherwise it holds the empty path and the infinite
  distance.
\<close>

theorem dijkstra_unreachable:
  assumes "wf_navigator nav" and "node_exists nav S" and "node_exists nav D"
  shows "\<exists>r. dijkstra nav S D = Some (Inr r) \<and> success r = reachable (graph nav) S D \<and>
           (\<not> reachable (graph nav) S D \<longrightarrow> path r = [] \<and> distance r = Infinity)"
proof -
  from dijkstra_runs[OF assms] obtain a b s where
    run: "node_names nav S = Some a" "node_names nav D = Some b"
      "dijkstra_loop (node_names nav) (graph nav) D (init_state (graph nav) S a b) = Inr s"
    by blast
  from dijkstra_outcome[OF run] show ?thesis
  proof
    assume "\<exists>es. walk (graph nav) S es \<and> walk_end S es = D \<and> distinct (S # map fst es) \<and>
            (nonneg_weights (graph nav) \<longrightarrow>
               (\<forall>fs. walk (graph nav) S fs \<and> walk_end S fs = D \<longrightarrow>
                     walk_length es \<le> walk_length fs)) \<and>
            dijkstra nav S D =
              Some (Inr \<lparr>path = S # map fst es, distance = Fin (walk_length es),
                         res_visited = visited s, res_steps = steps s, success = True\<rparr>)"
    then obtain es where es: "walk (graph nav) S es" "walk_end S es = D"
      "dijkstra nav S D =
              Some (Inr \<lparr>path = S # map fst es, distance = Fin (walk_length es),
                         res_visited = visited s, res_steps = steps s, success = True\<rparr>)"
      by blast
    from es(1,2) have "reachable (graph nav) S D" unfolding reachable_def by blast
    with es(3) show ?thesis by simp
  next
    assume "\<not> reachable (graph nav) S D \<and>
            dijkstra nav S D =
              Some (Inr \<lparr>path = [], distance = Infinity,
                         res_visited = visited s, res_steps = steps s, success = False\<rparr>)"
    then show ?thesis by simp
  qed
qed

lemma island_unreachable: "\<not> reachable (graph island_map) 0 3"
proof
  assume "reachable (graph island_map) 0 3"
  then obtain es where "walk (graph island_map) 0 es" "walk_end 0 es = 3"
    unfolding reachable_def by blast
  from walk_end_nodes[OF this(1)] this(2) have "3 \<in> graph_nodes (graph island_map)" by simp
  moreover have "3 \<notin> graph_nodes (graph island_map)" by code_simp
  ultimately show False by simp
qed

theorem dijkstra_unreachable_witness:
  "\<exists>r. dijkstra island_map 0 3 = Some (Inr r) \<and> \<not> success r \<and> path r = [] \<and>
        distance r = Infinity"
proof -
  have "wf_navigator island_map" "node_exists island_map 0" "node_exists island_map 3"
    by code_simp+
  from dijkstra_unreachable[OF this] island_unreachable show ?thesis by simp
qed

text \<open>
  Claim C10. The path of a successful result repeats no node; it starts at the source and
  ends at the destination.
\<close>

theorem dijkstra_simple_path:
  assumes "dijkstra nav S D = Some (Inr r)" and "success r"
  shows "distinct (path r) \<and> hd (path r) = S \<and> last (path r) = D"
proof -
  from dijkstra_returns[OF assms(1)] obtain a b s where
    run: "node_names nav S = Some a" "node_names nav D = Some b"
      "dijkstra_loop (node_names nav) (graph nav) D (init_state (graph nav) S a b) = Inr s"
    by blast
  from dijkstra_outcome[OF run] assms obtain es where
    es: "walk_end S es = D" "distinct (S # map fst es)"
      "r = \<lparr>path = S # map fst es, distance = Fin (walk_length es),
            res_visited = visited s, res_steps = steps s, success = True\<rparr>"
    by auto
  from es(1) have "last (S # map fst es) = D" by (simp add: walk_end_def)
  with es(2,3) show ?thesis by simp
qed

theorem dijkstra_simple_path_witness:
  "\<exists>r. dijkstra setup_city_map 0 11 = Some (Inr r) \<and> success r \<and>
        path r = [0, 3, 6, 7, 8, 11] \<and> distinct (path r) \<and> hd (path r) = 0 \<and>
        last (path r) = 11"
proof -
  have "map_option (map_sum id (\<lambda>r. (success r, path r))) (dijkstra setup_city_map 0 11)
      = Some (Inr (True, [0, 3, 6, 7, 8, 11]))"
    by code_simp
  then obtain x where x: "dijkstra setup_city_map 0 11 = Some x"
    "map_sum id (\<lambda>r. (success r, path r)) x = Inr (True, [0, 3, 6, 7, 8, 11])"
    by auto
  then obtain r where r: "dijkstra setup_city_map 0 11 = Some (Inr r)" "success r"
    "path r = [0, 3, 6, 7, 8, 11]"
    by (cases x) auto
  from dijkstra_simple_path[OF r(1,2)] r show ?thesis by blast
qed

lemma nonneg_graph_append:
  "nonneg_weights g \<Longrightarrow> 0 \<le> w \<Longrightarrow> nonneg_weights (graph_append g k (v, w))"
  by (induction g k "(v, w)" rule: graph_append.induct) (auto simp: nonneg_weights_def)

lemma nonneg_add_road:
  "nonneg_weights (graph nav) \<Longrightarrow> 0 \<le> w \<Longrightarrow> nonneg_weights (graph (add_road nav a b w))"
  by (simp add: add_road_def nonneg_graph_append)

lemma nonneg_add_roads:
  "nonneg_weights (graph nav) \<Longrightarrow> \<forall>(a, b, w) \<in> set cs. 0 \<le> w \<Longrightarrow>
     nonneg_weights (graph (add_roads nav cs))"
proof (induction cs arbitrary: nav)
  case Nil
  then show ?case by (simp add: add_roads_def)
next
  case (Cons c cs)
  obtain a b w where c: "c = (a, b, w)" by (cases c)
  from Cons.prems(2) c have w: "0 \<le> w" and rest: "\<forall>(a, b, w) \<in> set cs. 0 \<le> w" by simp_all
  from Cons.IH[OF nonneg_add_road[OF Cons.prems(1) w, of a b] rest] show ?case
    by (simp add: add_roads_def c)
qed

lemma nonneg_whole_roads:
  "nonneg_weights (graph (add_roads \<lparr>graph = [], node_names = nm\<rparr> (whole_roads roads)))"
proof (rule nonneg_add_roads)
  show "nonneg_weights (graph \<lparr>graph = [], node_names = nm\<rparr>)"
    by (simp add: nonneg_weights_def)
  show "\<forall>(a, b, w) \<in> set (whole_roads roads). 0 \<le> w"
    by (auto simp: whole_roads_def)
qed

text \<open>
  In the model, where sums are exact, the two directions agree whenever no road of a map
  built by \<^verbatim>\<open>add_road\<close> is negative: both distances are the least length of a route, and
  a route reversed is a route of the same length.
\<close>

lemma symmetric_distance:
  assumes "nav = add_roads \<lparr>graph = [], node_names = nm\<rparr> roads"
    and "wf_navigator nav" and "nonneg_weights (graph nav)"
    and "node_exists nav A" and "node_exists nav B" and "reachable (graph nav) A B"
  shows "\<exists>ra rb. dijkstra nav A B = Some (Inr ra) \<and> dijkstra nav B A = Some (Inr rb) \<and>
           success ra \<and> success rb \<and> distance ra = distance rb"
proof -
  have sym: "symmetric_roads (graph nav)"
    unfolding assms(1) by (rule symmetric_add_roads) (simp add: symmetric_empty)
  from assms(6) obtain es where es: "walk (graph nav) A es" "walk_end A es = B"
    unfolding reachable_def by blast
  from walk_reverse[OF sym es(1)] es(2) have ret: "reachable (graph nav) B A"
    unfolding reachable_def by blast
  from dijkstra_runs[OF assms(2,4,5)] obtain a b s where
    run: "node_names nav A = Some a" "node_names nav B = Some b"
      "dijkstra_loop (node_names nav) (graph nav) B (init_state (graph nav) A a b) = Inr s"
    by blast
  from dijkstra_outcome[OF run] assms(3,6) obtain ps where
    ps: "walk (graph nav) A ps" "walk_end A ps = B"
      "\<forall>fs. walk (graph nav) A fs \<and> walk_end A fs = B \<longrightarrow> walk_length ps \<le> walk_length fs"
      "dijkstra nav A B =
         Some (Inr \<lparr>path = A # map fst ps, distance = Fin (walk_length ps),
                    res_visited = visited s, res_steps = steps s, success = True\<rparr>)"
    by blast
  from dijkstra_runs[OF assms(2,5,4)] obtain a' b' s' where
    run': "node_names nav B = Some a'" "node_names nav A = Some b'"
      "dijkstra_loop (node_names nav) (graph nav) A (init_state (graph nav) B a' b') = Inr s'"
    by blast
  from dijkstra_outcome[OF run'] assms(3) ret obtain qs where
    qs: "walk (graph nav) B qs" "walk_end B qs = A"
      "\<forall>fs. walk (graph nav) B fs \<and> walk_end B fs = A \<longrightarrow> walk_length qs \<le> walk_length fs"
      "dijkstra nav B A =
         Some (Inr \<lparr>path = B # map fst qs, distance = Fin (walk_length qs),
                    res_visited = visited s', res_steps = steps s', success = True\<rparr>)"
    by blast
  from walk_reverse[OF sym ps(1)] ps(2) qs(3) have "walk_length qs \<le> walk_length ps" by auto
  moreover from walk_reverse[OF sym qs(1)] qs(2) ps(3) have "walk_length ps \<le> walk_length qs"
    by auto
  ultimately have "walk_length ps = walk_length qs" by simp
  with ps(4) qs(4) show ?thesis by simp
qed


lemma whole_number_reachable: "reachable (graph whole_number_map) 0 2"
proof -
  have "walk (graph whole_number_map) 0 [(2, 9)]" by code_simp
  moreover have "walk_end 0 [(2, 9 :: real)] = 2" by simp
  ultimately show ?thesis unfolding reachable_def by blast
qed



end
